theory Spec2Isabelle
  imports Main "HOL-Library.Sublist" "HOL-Library.Monad_Syntax"
begin

section \<open>JavaScript strings\<close>

text \<open>
  A JavaScript string is a sequence of UTF-16 code units; \<open>length\<close>, \<open>indexOf\<close>,
  \<open>slice\<close> and the regular expressions of the patcher (which carry no \<open>u\<close> flag) all
  count and compare code units. A code unit is modelled as a natural number, so every
  JavaScript string is a \<open>jsstring\<close>. The literals of the source are ASCII and are
  written with \<open>js\<close>.
\<close>

type_synonym code_unit = nat
type_synonym jsstring = "code_unit list"

definition js :: "string \<Rightarrow> jsstring" where
  "js = map of_char"

text \<open>The position of the first occurrence of \<open>w\<close> in the text, scanning from the left.\<close>

fun first_index :: "jsstring \<Rightarrow> jsstring \<Rightarrow> nat option" where
  "first_index w [] = (if w = [] then Some 0 else None)"
| "first_index w (c # s) =
     (if prefix w (c # s) then Some 0 else map_option Suc (first_index w s))"

text \<open>The position of the last occurrence.\<close>

fun last_index :: "jsstring \<Rightarrow> jsstring \<Rightarrow> nat option" where
  "last_index w [] = (if w = [] then Some 0 else None)"
| "last_index w (c # s) =
     (case last_index w s of
        Some i \<Rightarrow> Some (Suc i)
      | None \<Rightarrow> if prefix w (c # s) then Some 0 else None)"

text \<open>\<open>String.prototype.indexOf\<close> and \<open>lastIndexOf\<close>: \<open>-1\<close> when there is no occurrence.\<close>

definition indexOf :: "jsstring \<Rightarrow> jsstring \<Rightarrow> int" where
  "indexOf s w = (case first_index w s of None \<Rightarrow> - 1 | Some i \<Rightarrow> int i)"

definition lastIndexOf :: "jsstring \<Rightarrow> jsstring \<Rightarrow> int" where
  "lastIndexOf s w = (case last_index w s of None \<Rightarrow> - 1 | Some i \<Rightarrow> int i)"

text \<open>\<open>String.prototype.includes\<close>: \<open>s.includes(w)\<close> is \<open>s.indexOf(w) !== -1\<close>.\<close>

definition str_includes :: "jsstring \<Rightarrow> jsstring \<Rightarrow> bool" where
  "str_includes s w = (indexOf s w \<noteq> - 1)"

text \<open>
  \<open>String.prototype.slice\<close>: a negative index counts from the end, and every index is
  clamped to the string.
\<close>

definition slice_index :: "jsstring \<Rightarrow> int \<Rightarrow> nat" where
  "slice_index s i = (if i < 0 then nat (int (length s) + i) else min (nat i) (length s))"

definition slice :: "jsstring \<Rightarrow> int \<Rightarrow> int \<Rightarrow> jsstring" where
  "slice s b e = take (slice_index s e - slice_index s b) (drop (slice_index s b) s)"

definition slice_from :: "jsstring \<Rightarrow> int \<Rightarrow> jsstring" where
  "slice_from s b = drop (slice_index s b) s"

text \<open>
  \<open>String.prototype.replace\<close> with a string pattern replaces the first occurrence only,
  and expands the patterns \<open>$$\<close>, \<open>$&\<close>, \<open>$`\<close> and \<open>$'\<close> of the replacement
  (there are no capture groups, so \<open>$1\<close> and \<open>$<\<close> stay as they are).
  Code unit 36 is \<open>$\<close>, 38 is \<open>&\<close>, 96 is the backtick and 39 the apostrophe.
\<close>

fun get_substitution :: "jsstring \<Rightarrow> jsstring \<Rightarrow> jsstring \<Rightarrow> jsstring \<Rightarrow> jsstring" where
  "get_substitution m pre post (a # b # r) =
     (if a = 36 \<and> b = 36 then 36 # get_substitution m pre post r
      else if a = 36 \<and> b = 38 then m @ get_substitution m pre post r
      else if a = 36 \<and> b = 96 then pre @ get_substitution m pre post r
      else if a = 36 \<and> b = 39 then post @ get_substitution m pre post r
      else a # get_substitution m pre post (b # r))"
| "get_substitution m pre post r = r"

definition str_replace :: "jsstring \<Rightarrow> jsstring \<Rightarrow> jsstring \<Rightarrow> jsstring" where
  "str_replace s w r =
     (case first_index w s of
        None \<Rightarrow> s
      | Some i \<Rightarrow>
          take i s
          @ get_substitution w (take i s) (drop (i + length w) s) r
          @ drop (i + length w) s)"

text \<open>\<open>Array.prototype.join\<close>.\<close>

fun join :: "jsstring \<Rightarrow> jsstring list \<Rightarrow> jsstring" where
  "join sep [] = []"
| "join sep [x] = x"
| "join sep (x # y # ys) = x @ sep @ join sep (y # ys)"

section \<open>The regular expressions of the extractor\<close>

text \<open>
  The character classes \<open>\w\<close>, \<open>[A-Za-z0-9_$]\<close> and \<open>\s\<close> of a JavaScript regular
  expression without the \<open>u\<close> flag.
\<close>

definition is_word :: "code_unit \<Rightarrow> bool" where
  "is_word c \<longleftrightarrow>
     (97 \<le> c \<and> c \<le> 122) \<or> (65 \<le> c \<and> c \<le> 90) \<or> (48 \<le> c \<and> c \<le> 57) \<or> c = 95"

definition is_ident :: "code_unit \<Rightarrow> bool" where
  "is_ident c \<longleftrightarrow> is_word c \<or> c = 36"

definition is_space :: "code_unit \<Rightarrow> bool" where
  "is_space c \<longleftrightarrow>
     (9 \<le> c \<and> c \<le> 13) \<or> c = 32 \<or> c = 160 \<or> c = 5760 \<or> (8192 \<le> c \<and> c \<le> 8202)
     \<or> c = 8232 \<or> c = 8233 \<or> c = 8239 \<or> c = 8287 \<or> c = 12288 \<or> c = 65279"

text \<open>
  Each regular expression of the patcher is a sequence of literals and of greedy \<open>+\<close>
  repetitions of one character class. In every one of them the repetition is followed by
  a literal character outside its class (or by a repetition of a disjoint class), so a
  shorter repetition can never make the rest match and the greedy choice is the only one:
  the matcher below runs the pieces from left to right without backtracking. A back
  reference \<open>\1\<close> is the literal \<open>lit g\<close> of the text captured by the group.

  \<open>lit\<close> consumes a literal and returns the rest; \<open>many1\<close> consumes the longest non-empty
  run of the class and returns the run and the rest; \<open>first_match\<close> is the search of
  \<open>String.prototype.match\<close> for the leftmost position where the expression matches.
\<close>

definition lit :: "jsstring \<Rightarrow> jsstring \<Rightarrow> jsstring option" where
  "lit w s = (if prefix w s then Some (drop (length w) s) else None)"

definition many1 :: "(code_unit \<Rightarrow> bool) \<Rightarrow> jsstring \<Rightarrow> (jsstring \<times> jsstring) option" where
  "many1 p s = (if takeWhile p s = [] then None else Some (takeWhile p s, dropWhile p s))"

fun first_match :: "(jsstring \<Rightarrow> 'a option) \<Rightarrow> jsstring \<Rightarrow> 'a option" where
  "first_match m [] = m []"
| "first_match m (c # s) = (case m (c # s) of Some r \<Rightarrow> Some r | None \<Rightarrow> first_match m s)"

text \<open>\<^verbatim>\<open>/class\s+([A-Za-z0-9_$]+)\{type="tmux"/\<close>, returning group 1.\<close>

definition tmuxClass_at :: "jsstring \<Rightarrow> jsstring option" where
  \<open>tmuxClass_at s = do {
     s1 \<leftarrow> lit (js ''class'') s;
     (sp, s2) \<leftarrow> many1 is_space s1;
     (g1, s3) \<leftarrow> many1 is_ident s2;
     s4 \<leftarrow> lit (js ''{type="tmux"'') s3;
     Some g1 }\<close>

definition tmuxClassMatch :: "jsstring \<Rightarrow> jsstring option" where
  "tmuxClassMatch code = first_match tmuxClass_at code"

text \<open>
  The cascade expression
  \<^verbatim>\<open>/\[BackendRegistry\] Selected: tmux \(running inside tmux session\)"\);let (\w+)=(\w+)\(\);return (\w+)=\1,(\w+)=\{backend:\1,isNative:!0,needsIt2Setup:!1\},\4/\<close>,
  returning groups 2, 3 and 4.
\<close>

definition cascade_at :: "jsstring \<Rightarrow> (jsstring \<times> jsstring \<times> jsstring) option" where
  \<open>cascade_at s = do {
     s1 \<leftarrow> lit (js ''[BackendRegistry] Selected: tmux (running inside tmux session)");let '') s;
     (g1, s2) \<leftarrow> many1 is_word s1;
     s3 \<leftarrow> lit (js ''='') s2;
     (g2, s4) \<leftarrow> many1 is_word s3;
     s5 \<leftarrow> lit (js ''();return '') s4;
     (g3, s6) \<leftarrow> many1 is_word s5;
     s7 \<leftarrow> lit (js ''='') s6;
     s8 \<leftarrow> lit g1 s7;
     s9 \<leftarrow> lit (js '','') s8;
     (g4, s10) \<leftarrow> many1 is_word s9;
     s11 \<leftarrow> lit (js ''={backend:'') s10;
     s12 \<leftarrow> lit g1 s11;
     s13 \<leftarrow> lit (js '',isNative:!0,needsIt2Setup:!1},'') s12;
     s14 \<leftarrow> lit g4 s13;
     Some (g2, g3, g4) }\<close>

definition cascadeMatch :: "jsstring \<Rightarrow> (jsstring \<times> jsstring \<times> jsstring) option" where
  "cascadeMatch code = first_match cascade_at code"

text \<open>\<^verbatim>\<open>/\(await\s+(\w+)\(\w+,\["-V"\]\)\)\.code===0/\<close>, returning group 1.\<close>

definition exec_at :: "jsstring \<Rightarrow> jsstring option" where
  \<open>exec_at s = do {
     s1 \<leftarrow> lit (js ''(await'') s;
     (sp, s2) \<leftarrow> many1 is_space s1;
     (g1, s3) \<leftarrow> many1 is_word s2;
     s4 \<leftarrow> lit (js ''('') s3;
     (w, s5) \<leftarrow> many1 is_word s4;
     s6 \<leftarrow> lit (js '',["-V"])).code===0'') s5;
     Some g1 }\<close>

definition execMatch :: "jsstring \<Rightarrow> jsstring option" where
  "execMatch code = first_match exec_at code"

text \<open>\<^verbatim>\<open>/case"iterm2":return\s+(\w+)\(\)/\<close>, returning group 1.\<close>

definition iterm2_at :: "jsstring \<Rightarrow> jsstring option" where
  \<open>iterm2_at s = do {
     s1 \<leftarrow> lit (js ''case"iterm2":return'') s;
     (sp, s2) \<leftarrow> many1 is_space s1;
     (g1, s3) \<leftarrow> many1 is_word s2;
     s4 \<leftarrow> lit (js ''()'') s3;
     Some g1 }\<close>

definition iterm2Match :: "jsstring \<Rightarrow> jsstring option" where
  "iterm2Match code = first_match iterm2_at code"

text \<open>\<^verbatim>\<open>/(\w+)\("\[BackendRegistry\] Starting backend detection\.\.\."\)/\<close>, returning group 1.\<close>

definition log_at :: "jsstring \<Rightarrow> jsstring option" where
  \<open>log_at s = do {
     (g1, s1) \<leftarrow> many1 is_word s;
     s2 \<leftarrow> lit (js ''("[BackendRegistry] Starting backend detection...")'') s1;
     Some g1 }\<close>

definition logMatch :: "jsstring \<Rightarrow> jsstring option" where
  "logMatch code = first_match log_at code"

text \<open>\<^verbatim>\<open>/insideTmux=\$\{(\w+)\(\)\}/\<close>, returning group 1.\<close>

definition tmuxSync_at :: "jsstring \<Rightarrow> jsstring option" where
  \<open>tmuxSync_at s = do {
     s1 \<leftarrow> lit (js ''insideTmux=${'') s;
     (g1, s2) \<leftarrow> many1 is_word s1;
     s3 \<leftarrow> lit (js ''()}'') s2;
     Some g1 }\<close>

definition tmuxSyncMatch :: "jsstring \<Rightarrow> jsstring option" where
  "tmuxSyncMatch code = first_match tmuxSync_at code"

text \<open>
  \<^verbatim>\<open>/let K=await\s+\w+\(\);if\(\w+\(`$/\<close>: the expression has no \<open>m\<close> flag, so \<open>$\<close> is the
  end of the text. The result is the matched text, \<open>letKMatch[0]\<close>.
\<close>

definition letK_at :: "jsstring \<Rightarrow> jsstring option" where
  \<open>letK_at s = do {
     s1 \<leftarrow> lit (js ''let K=await'') s;
     (sp, s2) \<leftarrow> many1 is_space s1;
     (w1, s3) \<leftarrow> many1 is_word s2;
     s4 \<leftarrow> lit (js ''();if('') s3;
     (w2, s5) \<leftarrow> many1 is_word s4;
     s6 \<leftarrow> lit (js ''(`'') s5;
     (if s6 = [] then Some s else None) }\<close>

definition letKMatch :: "jsstring \<Rightarrow> jsstring option" where
  "letKMatch window = first_match letK_at window"

section \<open>The identifier extractor\<close>

record MinifiedNames =
  tmuxBackendClass :: jsstring
  tmuxFactory :: jsstring
  iterm2Factory :: jsstring
  cachedBackendRef :: jsstring
  cachedResultVar :: jsstring
  execFn :: jsstring
  logFn :: jsstring
  isInsideTmuxSyncFn :: jsstring

text \<open>
  \<open>extractMinifiedNames\<close> runs the six searches in the order of the source and returns
  \<open>null\<close> (here \<open>None\<close>) at the first one that fails.
\<close>

definition extractMinifiedNames :: "jsstring \<Rightarrow> MinifiedNames option" where
  "extractMinifiedNames code' = do {
     tmuxClass \<leftarrow> tmuxClassMatch code';
     (tmuxFactory', cachedBackendRef', cachedResultVar') \<leftarrow> cascadeMatch code';
     execFn' \<leftarrow> execMatch code';
     iterm2 \<leftarrow> iterm2Match code';
     log \<leftarrow> logMatch code';
     tmuxSync \<leftarrow> tmuxSyncMatch code';
     Some \<lparr> tmuxBackendClass = tmuxClass,
            tmuxFactory = tmuxFactory',
            iterm2Factory = iterm2,
            cachedBackendRef = cachedBackendRef',
            cachedResultVar = cachedResultVar',
            execFn = execFn',
            logFn = log,
            isInsideTmuxSyncFn = tmuxSync \<rparr> }"

section \<open>The generated code\<close>

definition ZELLIJ_DETECTION_CODE :: "jsstring \<Rightarrow> jsstring" where
  \<open>ZELLIJ_DETECTION_CODE execFn' = join [10]
     [ js ''function isInsideZellijSync(){return process.env.ZELLIJ==="0"&&!!process.env.ZELLIJ_SESSION_NAME}'',
       js ''async function isInsideZellij(){return isInsideZellijSync()}'',
       js ''async function isZellijAvailable(){try{return(await '' @ execFn'
         @ js ''("which",["zellij"])).code===0}catch{return!1}}'' ]\<close>

definition ZELLIJ_BACKEND_CLASS :: "jsstring \<Rightarrow> jsstring \<Rightarrow> jsstring" where
  \<open>ZELLIJ_BACKEND_CLASS execFn' logFn' = join [10]
     [ js ''var zellijLockQueue=Promise.resolve();'',
       js ''var zellijBackendRegistered=null;'',
       js ''function registerZellijBackend(A){zellijBackendRegistered=A}'',
       js ''function createZellijBackend(){if(!zellijBackendRegistered)throw Error("ZellijBackend not registered.");return new zellijBackendRegistered}'',
       join []
         [ js ''class ZellijBackendImpl{type="zellij";displayName="Zellij";supportsHideShow=!1;paneCount=0;_pendingRelease=null;'',
           js ''async isAvailable(){return isInsideZellijSync()||await isZellijAvailable()}'',
           js ''async isRunningInside(){return isInsideZellij()}'',
           js ''async createTeammatePaneInSwarmView(A,q){'',
           js ''let K,Y=new Promise((z)=>{K=z}),w=zellijLockQueue;zellijLockQueue=Y;await w;'',
           js ''try{let z=this.paneCount===0;this.paneCount++;'',
           js ''let H="zellij-"+A+"-"+this.paneCount;'',
           js ''let $=await '' @ execFn' @ js ''("zellij",["action","new-pane","--name",A]);'',
           js ''if($.code!==0){K();throw Error("Failed to create Zellij pane for "+A+": "+$.stderr)}'',
           js ''this._pendingRelease=K;'',
           logFn' @ js ''("[ZellijBackend] Created pane for "+A+": "+H+", isFirst="+z);'',
           js ''await new Promise(O=>setTimeout(O,200));'',
           js ''return{paneId:H,isFirstTeammate:z}'',
           js ''}catch(z){if(this._pendingRelease){this._pendingRelease();this._pendingRelease=null}else{K()}throw z}}'',
           js ''async sendCommandToPane(A,q,K){'',
           js ''try{let Y=await '' @ execFn' @ js ''("zellij",["action","write-chars",q]);'',
           js ''if(Y.code!==0)throw Error("Failed to write to Zellij pane "+A+": "+Y.stderr);'',
           js ''let z=await '' @ execFn' @ js ''("zellij",["action","write","13"]);'',
           js ''if(z.code!==0)throw Error("Failed to send Enter to Zellij pane "+A+": "+z.stderr);'',
           logFn' @ js ''("[ZellijBackend] Sent command to pane "+A)'',
           js ''}finally{if(this._pendingRelease){this._pendingRelease();this._pendingRelease=null}}}'',
           js ''async setPaneBorderColor(A,q,K){}'',
           js ''async setPaneTitle(A,q,K,Y){}'',
           js ''async enablePaneBorderStatus(A,q){}'',
           js ''async rebalancePanes(A,q){'' @ logFn' @ js ''("[ZellijBackend] rebalancePanes: no-op")}'',
           js ''async killPane(A,q){'' @ logFn' @ js ''("[ZellijBackend] killPane "+A+": best-effort");return!0}'',
           js ''async hidePane(A,q){return!1}'',
           js ''async showPane(A,q,K){return!1}}'' ],
       js ''registerZellijBackend(ZellijBackendImpl);'' ]\<close>

section \<open>The patch applier\<close>

record PatchResult =
  success :: bool
  patchedSource :: "jsstring option"
  appliedPatches :: "jsstring list"
  failedPatches :: "jsstring list"
  warnings :: "jsstring list"

text \<open>
  The local variables \<open>code\<close>, \<open>applied\<close>, \<open>failed\<close> and \<open>warnings\<close> of
  \<open>patchCliSource\<close>, threaded through the edits (the last one is \<open>warnings'\<close> here,
  since \<open>warnings\<close> is the field of the report).
\<close>

record patch_state =
  code :: jsstring
  applied :: "jsstring list"
  failed :: "jsstring list"
  warnings' :: "jsstring list"

subsection \<open>PATCH 1: inject the backend class before the tmux backend\<close>

definition tmuxBackendAnchor :: "MinifiedNames \<Rightarrow> jsstring" where
  \<open>tmuxBackendAnchor n = js ''class '' @ tmuxBackendClass n @ js ''{type="tmux"''\<close>

definition patch1Applied :: jsstring where
  "patch1Applied = js ''Injected ZellijBackend class and detection functions''"

definition patch1Failed :: jsstring where
  "patch1Failed = js ''PATCH 1: Could not find TmuxBackend class anchor''"

definition patch1 :: "MinifiedNames \<Rightarrow> patch_state \<Rightarrow> patch_state" where
  "patch1 n st =
     (if str_includes (code st) (tmuxBackendAnchor n) then
        (let insertPos = indexOf (code st) (tmuxBackendAnchor n) in
         st\<lparr> code :=
               slice (code st) 0 insertPos
               @ ZELLIJ_DETECTION_CODE (execFn n)
               @ [10]
               @ ZELLIJ_BACKEND_CLASS (execFn n) (logFn n)
               @ [10]
               @ slice_from (code st) insertPos,
             applied := applied st @ [patch1Applied] \<rparr>)
      else st\<lparr> failed := failed st @ [patch1Failed] \<rparr>)"

subsection \<open>PATCH 2: insert the detection in the backend cascade\<close>

definition cascadeAnchor :: jsstring where
  \<open>cascadeAnchor = js ''[BackendRegistry] Not in tmux or iTerm2, tmux available: ${K}`)''\<close>

definition zellijCheck :: "MinifiedNames \<Rightarrow> jsstring" where
  \<open>zellijCheck n = join []
     [ js ''if(isInsideZellijSync()){'',
       logFn n @ js ''("[BackendRegistry] Selected: zellij (running inside Zellij session)");'',
       js ''let ZB=createZellijBackend();'',
       js ''return '' @ cachedBackendRef n @ js ''=ZB,'' @ cachedResultVar n
         @ js ''={backend:ZB,isNative:!0,needsIt2Setup:!1},'' @ cachedResultVar n @ js ''}'' ]\<close>

definition patch2Applied :: jsstring where
  "patch2Applied = js ''Inserted Zellij detection in backend cascade''"

definition patch2FailedStart :: jsstring where
  "patch2FailedStart =
     js ''PATCH 2: Found cascade log message but could not locate statement start''"

definition patch2FailedAnchor :: jsstring where
  "patch2FailedAnchor = js ''PATCH 2: Could not find cascade anchor for Zellij detection''"

definition patch2 :: "MinifiedNames \<Rightarrow> patch_state \<Rightarrow> patch_state" where
  "patch2 n st =
     (if str_includes (code st) cascadeAnchor then
        (let anchorPos = indexOf (code st) cascadeAnchor;
             searchStart = max 0 (anchorPos - 200);
             pre = slice (code st) searchStart anchorPos
         in case letKMatch pre of
              Some letK \<Rightarrow>
                (let fullAnchorStart = searchStart + lastIndexOf pre letK in
                 st\<lparr> code :=
                       slice (code st) 0 fullAnchorStart
                       @ zellijCheck n
                       @ slice_from (code st) fullAnchorStart,
                     applied := applied st @ [patch2Applied] \<rparr>)
            | None \<Rightarrow> st\<lparr> failed := failed st @ [patch2FailedStart] \<rparr>)
      else st\<lparr> failed := failed st @ [patch2FailedAnchor] \<rparr>)"

subsection \<open>PATCH 3: the external fallback before the error\<close>

definition errorAnchor :: jsstring where
  \<open>errorAnchor = js ''throw h("[BackendRegistry] ERROR: No pane backend available")''\<close>

definition zellijFallback :: "MinifiedNames \<Rightarrow> jsstring" where
  \<open>zellijFallback n = join []
     [ js ''{let ZA=await isZellijAvailable();'',
       js ''if('' @ logFn n @ js ''("[BackendRegistry] Checking zellij availability: "+ZA),ZA){'',
       logFn n @ js ''("[BackendRegistry] Selected: zellij (external)");'',
       js ''let ZB=createZellijBackend();'',
       js ''return '' @ cachedBackendRef n @ js ''=ZB,'' @ cachedResultVar n
         @ js ''={backend:ZB,isNative:!1,needsIt2Setup:!1},'' @ cachedResultVar n @ js ''}}'' ]\<close>

definition patch3Applied :: jsstring where
  "patch3Applied = js ''Added Zellij as external fallback before error''"

definition patch3Failed :: jsstring where
  "patch3Failed = js ''PATCH 3: Could not find error anchor for Zellij fallback''"

definition patch3 :: "MinifiedNames \<Rightarrow> patch_state \<Rightarrow> patch_state" where
  "patch3 n st =
     (if str_includes (code st) errorAnchor then
        st\<lparr> code := str_replace (code st) errorAnchor (zellijFallback n @ errorAnchor),
            applied := applied st @ [patch3Applied] \<rparr>
      else st\<lparr> failed := failed st @ [patch3Failed] \<rparr>)"

subsection \<open>PATCH 4: the case of the dispatch on the backend type\<close>

definition backendByTypeAnchor :: "MinifiedNames \<Rightarrow> jsstring" where
  \<open>backendByTypeAnchor n =
     js ''case"tmux":return '' @ tmuxFactory n @ js ''();case"iterm2":return ''
     @ iterm2Factory n @ js ''()''\<close>

definition patch4Applied :: jsstring where
  \<open>patch4Applied = js ''Added "zellij" case to getBackendByType''\<close>

definition patch4Failed :: jsstring where
  "patch4Failed = js ''PATCH 4: Could not find getBackendByType anchor''"

definition patch4 :: "MinifiedNames \<Rightarrow> patch_state \<Rightarrow> patch_state" where
  \<open>patch4 n st =
     (if str_includes (code st) (backendByTypeAnchor n) then
        st\<lparr> code := str_replace (code st) (backendByTypeAnchor n)
                    (backendByTypeAnchor n @ js '';case"zellij":return createZellijBackend()''),
            applied := applied st @ [patch4Applied] \<rparr>
      else st\<lparr> failed := failed st @ [patch4Failed] \<rparr>)\<close>

subsection \<open>PATCH 5: the error messages\<close>

text \<open>Code unit 39 is the apostrophe of \<open>system's\<close>.\<close>

definition errorMsgReplacements :: "(jsstring \<times> jsstring) list" where
  "errorMsgReplacements =
     [ (js ''To use agent swarms, install tmux:'',
        js ''To use agent swarms, install tmux or start a Zellij session (zellij):''),
       (js ''To use agent swarms, install tmux using your system'' @ [39] @ js ''s package manager.'',
        js ''To use agent swarms, install tmux or Zellij using your system'' @ [39]
          @ js ''s package manager.'') ]"

text \<open>
  The inner loop \<^verbatim>\<open>while (code.includes(find)) code = code.replace(find, replace)\<close>.
  Nothing in its text bounds the number of rounds, so it is a partial function: \<open>None\<close>
  is a loop that never ends.
\<close>

partial_function (option) replace_while :: "jsstring \<Rightarrow> jsstring \<Rightarrow> jsstring \<Rightarrow> jsstring option" where
  "replace_while find' replace' code' =
     (if str_includes code' find' then replace_while find' replace' (str_replace code' find' replace')
      else Some code')"

declare replace_while.simps [code]

definition appliedMessage :: "jsstring \<Rightarrow> jsstring" where
  \<open>appliedMessage find' = js ''Updated error message: "'' @ slice find' 0 40 @ js ''..."''\<close>

definition warningMessage :: "jsstring \<Rightarrow> jsstring" where
  \<open>warningMessage find' =
     js ''Error message not found (may already be patched): "'' @ slice find' 0 40 @ js ''..."''\<close>

text \<open>One round of the \<open>for\<close> loop over \<open>errorMsgReplacements\<close>.\<close>

definition replaceMessage :: "jsstring \<times> jsstring \<Rightarrow> patch_state \<Rightarrow> patch_state option" where
  "replaceMessage fr st =
     (case fr of (find', replace') \<Rightarrow>
        if str_includes (code st) find' then
          do { code' \<leftarrow> replace_while find' replace' (code st);
               Some (st\<lparr> code := code', applied := applied st @ [appliedMessage find'] \<rparr>) }
        else Some (st\<lparr> warnings' := warnings' st @ [warningMessage find'] \<rparr>))"

fun replaceMessages :: "(jsstring \<times> jsstring) list \<Rightarrow> patch_state \<Rightarrow> patch_state option" where
  "replaceMessages [] st = Some st"
| "replaceMessages (fr # frs) st = do { st' \<leftarrow> replaceMessage fr st; replaceMessages frs st' }"

definition patch5 :: "patch_state \<Rightarrow> patch_state option" where
  "patch5 st = replaceMessages errorMsgReplacements st"

subsection \<open>PATCH 6: the in-process check\<close>

definition inProcessAnchor :: "MinifiedNames \<Rightarrow> jsstring" where
  \<open>inProcessAnchor n = js ''else q=!'' @ isInsideTmuxSyncFn n @ js ''()''\<close>

definition patch6Applied :: jsstring where
  "patch6Applied = js ''Patched isInProcessEnabled to recognize Zellij sessions''"

definition patch6Failed :: jsstring where
  "patch6Failed = js ''PATCH 6: Could not find isInProcessEnabled anchor for Zellij check''"

definition patch6 :: "MinifiedNames \<Rightarrow> patch_state \<Rightarrow> patch_state" where
  \<open>patch6 n st =
     (if str_includes (code st) (inProcessAnchor n) then
        st\<lparr> code := str_replace (code st) (inProcessAnchor n)
                    (js ''else q=!'' @ isInsideTmuxSyncFn n @ js ''()&&!isInsideZellijSync()''),
            applied := applied st @ [patch6Applied] \<rparr>
      else st\<lparr> failed := failed st @ [patch6Failed] \<rparr>)\<close>

subsection \<open>The whole run\<close>

definition notRecognized :: PatchResult where
  "notRecognized =
     \<lparr> success = False, patchedSource = None, appliedPatches = [],
       failedPatches = [js ''File does not appear to be Claude Code cli.js''],
       warnings = [] \<rparr>"

definition alreadyPatched :: PatchResult where
  "alreadyPatched =
     \<lparr> success = False, patchedSource = None, appliedPatches = [],
       failedPatches = [js ''File appears to already be patched with Zellij support''],
       warnings = [] \<rparr>"

definition extractionFailed :: PatchResult where
  "extractionFailed =
     \<lparr> success = False, patchedSource = None, appliedPatches = [],
       failedPatches = [js ''Could not extract minified variable names. The cli.js structure may have changed significantly.''],
       warnings = [] \<rparr>"

text \<open>The two guards at the head of \<open>patchCliSource\<close>.\<close>

definition looksLikeCli :: "jsstring \<Rightarrow> bool" where
  \<open>looksLikeCli source \<longleftrightarrow>
     str_includes source (js ''BackendRegistry'') \<and> str_includes source (js ''type="tmux"'')\<close>

definition isPatched :: "jsstring \<Rightarrow> bool" where
  "isPatched source \<longleftrightarrow>
     str_includes source (js ''ZellijBackendImpl'') \<or> str_includes source (js ''isInsideZellijSync'')"

text \<open>The six edits in the order of the source, from the initial state.\<close>

definition run_edits :: "MinifiedNames \<Rightarrow> jsstring \<Rightarrow> patch_state option" where
  "run_edits n source =
     do { st5 \<leftarrow> patch5 (patch4 n (patch3 n (patch2 n (patch1 n
            \<lparr> code = source, applied = [], failed = [], warnings' = [] \<rparr>))));
          Some (patch6 n st5) }"

definition report :: "patch_state \<Rightarrow> PatchResult" where
  "report st =
     \<lparr> success = (length (failed st) = 0),
       patchedSource = (if length (failed st) = 0 then Some (code st) else None),
       appliedPatches = applied st,
       failedPatches = failed st,
       warnings = warnings' st \<rparr>"

text \<open>
  \<open>patchCliSource\<close>, with the extractor it calls as a parameter: what holds for every
  \<open>extract\<close> does not depend on any result of the extraction. \<open>None\<close> is a run that
  does not return.
\<close>

definition patchCliSourceWith ::
  "(jsstring \<Rightarrow> MinifiedNames option) \<Rightarrow> jsstring \<Rightarrow> PatchResult option" where
  "patchCliSourceWith extract source =
     (if \<not> looksLikeCli source then Some notRecognized
      else if isPatched source then Some alreadyPatched
      else case extract source of
             None \<Rightarrow> Some extractionFailed
           | Some names \<Rightarrow> map_option report (run_edits names source))"

definition patchCliSource :: "jsstring \<Rightarrow> PatchResult option" where
  "patchCliSource source = patchCliSourceWith extractMinifiedNames source"

section \<open>Restoring the backup\<close>

text \<open>
  The file system is a map from paths to file contents. \<open>copyFileSync\<close> throws when the
  source file is missing; that is the result \<open>None\<close>.
\<close>

type_synonym filesystem = "jsstring \<rightharpoonup> jsstring"

definition existsSync :: "filesystem \<Rightarrow> jsstring \<Rightarrow> bool" where
  "existsSync fs p \<longleftrightarrow> fs p \<noteq> None"

definition copyFileSync :: "filesystem \<Rightarrow> jsstring \<Rightarrow> jsstring \<Rightarrow> filesystem option" where
  "copyFileSync fs src dest = (case fs src of None \<Rightarrow> None | Some bytes \<Rightarrow> Some (fs(dest \<mapsto> bytes)))"

definition removePatch :: "filesystem \<Rightarrow> jsstring \<Rightarrow> (bool \<times> filesystem) option" where
  "removePatch fs cliJsPath =
     (let backupPath = cliJsPath @ js ''.bak'' in
      if \<not> existsSync fs backupPath then Some (False, fs)
      else do { fs' \<leftarrow> copyFileSync fs backupPath cliJsPath; Some (True, fs') })"

text \<open>
  \<open>cmdUninstall\<close> of the command line: what it prints on the two streams, the exit
  status when it calls \<open>process.exit\<close>, and the file system it leaves.
\<close>

record outcome =
  out :: "jsstring list"
  err :: "jsstring list"
  exit_status :: "nat option"
  files :: filesystem

definition cmdUninstall :: "filesystem \<Rightarrow> jsstring \<Rightarrow> outcome option" where
  "cmdUninstall fs cliJsPath =
     do { r \<leftarrow> removePatch fs cliJsPath;
          Some (case r of (restored, fs') \<Rightarrow>
            if restored then
              \<lparr> out = [js ''Restoring '' @ cliJsPath @ js '' from backup...'',
                        js ''Original cli.js restored successfully.''],
                err = [], exit_status = None, files = fs' \<rparr>
            else
              \<lparr> out = [js ''Restoring '' @ cliJsPath @ js '' from backup...''],
                err = [js ''Error: No backup found at '' @ cliJsPath @ js ''.bak''],
                exit_status = Some 1, files = fs' \<rparr>) }"

section \<open>Auxiliary definitions\<close>

text \<open>A pair whose loop ends: both texts begin with a character that occurs nowhere else in them.\<close>

definition loop_pair :: "jsstring \<Rightarrow> jsstring \<Rightarrow> bool" where
  "loop_pair f r \<longleftrightarrow>
     (case (f, r) of
        (c # ft, d # rt) \<Rightarrow>
          c = d \<and> c \<notin> set ft \<and> c \<notin> set rt \<and> \<not> prefix ft rt \<and> length ft \<le> length rt
          \<and> 36 \<notin> set r
      | _ \<Rightarrow> False)"

definition loop_measure :: "jsstring \<Rightarrow> jsstring \<Rightarrow> nat" where
  "loop_measure f s = (case first_index f s of None \<Rightarrow> 0 | Some i \<Rightarrow> length s - i)"

definition entry :: "bool \<Rightarrow> jsstring \<Rightarrow> jsstring list" where
  "entry b x = (if b then [x] else [])"

abbreviation find1 :: jsstring where "find1 \<equiv> fst (errorMsgReplacements ! 0)"

abbreviation find2 :: jsstring where "find2 \<equiv> fst (errorMsgReplacements ! 1)"

definition cascadeWindow :: "jsstring \<Rightarrow> jsstring" where
  "cascadeWindow c =
     slice c (max 0 (indexOf c cascadeAnchor - 200)) (indexOf c cascadeAnchor)"

definition cascadeFound :: "jsstring \<Rightarrow> bool" where
  "cascadeFound c \<longleftrightarrow> str_includes c cascadeAnchor \<and> letKMatch (cascadeWindow c) \<noteq> None"

definition sampleCli :: jsstring where
  \<open>sampleCli = js ''class LTA{type="tmux"}h("[BackendRegistry] Starting backend detection...");if(x){h("[BackendRegistry] Selected: tmux (running inside tmux session)");let Y=EM6();return qW1=Y,ER={backend:Y,isNative:!0,needsIt2Setup:!1},ER}(await CA(T9,["-V"])).code===0;let K=await Ts();if(h(`[BackendRegistry] Not in tmux or iTerm2, tmux available: ${K}`),K){}throw h("[BackendRegistry] ERROR: No pane backend available");switch(t){case"tmux":return EM6();case"iterm2":return CI4()}`insideTmux=${Fq()}`;else q=!Fq();To use agent swarms, install tmux:''\<close>

definition sampleNames :: MinifiedNames where
  "sampleNames = \<lparr> tmuxBackendClass = js ''LTA'', tmuxFactory = js ''EM6'', iterm2Factory = js ''CI4'',
     cachedBackendRef = js ''qW1'', cachedResultVar = js ''ER'', execFn = js ''CA'', logFn = js ''h'',
     isInsideTmuxSyncFn = js ''Fq'' \<rparr>"

definition barePatched :: jsstring where
  "barePatched = js ''ZellijBackendImpl''"

definition initial :: "jsstring \<Rightarrow> patch_state" where
  "initial source = \<lparr> code = source, applied = [], failed = [], warnings' = [] \<rparr>"

definition markersOnly :: jsstring where
  \<open>markersOnly = js ''BackendRegistry type="tmux"''\<close>

definition sampleFiles :: filesystem where
  "sampleFiles = [js ''cli.js'' \<mapsto> js ''x'']"

section \<open>Occurrences of a text across an edit\<close>

text \<open>An occurrence of \<open>w\<close> in \<open>a @ b\<close> that lies across the boundary between \<open>a\<close> and \<open>b\<close>.\<close>

definition straddles :: "'a list \<Rightarrow> 'a list \<Rightarrow> 'a list \<Rightarrow> bool" where
  "straddles w a b \<longleftrightarrow>
     (\<exists>w1 w2. w = w1 @ w2 \<and> w1 \<noteq> [] \<and> w2 \<noteq> [] \<and> suffix w1 a \<and> prefix w2 b)"

definition comparable :: "'a list \<Rightarrow> 'a list \<Rightarrow> bool" where
  "comparable x y \<longleftrightarrow> prefix x y \<or> prefix y x"

text \<open>No non-empty suffix of the first text is comparable with the second.\<close>

fun no_overlap :: "'a list \<Rightarrow> 'a list \<Rightarrow> bool" where
  "no_overlap [] l = True"
| "no_overlap (x # xs) l = (\<not> comparable (x # xs) l \<and> no_overlap xs l)"

section \<open>What the extractor captures\<close>

definition word_text :: "jsstring \<Rightarrow> bool" where
  "word_text g \<longleftrightarrow> g \<noteq> [] \<and> (\<forall>c\<in>set g. is_word c)"

definition ident_text :: "jsstring \<Rightarrow> bool" where
  "ident_text g \<longleftrightarrow> g \<noteq> [] \<and> (\<forall>c\<in>set g. is_ident c)"

definition names_ok :: "MinifiedNames \<Rightarrow> bool" where
  "names_ok n \<longleftrightarrow>
     ident_text (tmuxBackendClass n) \<and> word_text (tmuxFactory n) \<and> word_text (iterm2Factory n)
     \<and> word_text (cachedBackendRef n) \<and> word_text (cachedResultVar n) \<and> word_text (execFn n)
     \<and> word_text (logFn n) \<and> word_text (isInsideTmuxSyncFn n)"

section \<open>The edits as insertions\<close>

definition injected :: "MinifiedNames \<Rightarrow> jsstring" where
  "injected n = ZELLIJ_DETECTION_CODE (execFn n) @ [10] @ ZELLIJ_BACKEND_CLASS (execFn n) (logFn n) @ [10]"

section \<open>The cascade anchor and its statement start\<close>

definition space_text :: "jsstring \<Rightarrow> bool" where
  "space_text g \<longleftrightarrow> g \<noteq> [] \<and> (\<forall>c\<in>set g. is_space c)"

text \<open>The texts that the statement-start expression matches from their first character to their end.\<close>

definition letK_text :: "jsstring \<Rightarrow> bool" where
  "letK_text m \<longleftrightarrow>
     (\<exists>sp w1 w2. m = js ''let K=await'' @ sp @ w1 @ js ''();if('' @ w2 @ js ''(`''
        \<and> space_text sp \<and> word_text w1 \<and> word_text w2)"

section \<open>Failed edits\<close>

text \<open>
  What one structural edit does to the state: when its anchor is found, one more entry in
  \<open>applied\<close> and nothing else recorded; when it is not, the state as it was (working
  text included) with one more entry in \<open>failed\<close>.
\<close>

definition edit_outcome ::
  "bool \<Rightarrow> jsstring \<Rightarrow> jsstring \<Rightarrow> patch_state \<Rightarrow> patch_state \<Rightarrow> bool" where
  "edit_outcome found done missing st st' \<longleftrightarrow>
     (if found then applied st' = applied st @ [done] \<and> failed st' = failed st
                    \<and> warnings' st' = warnings' st
      else st' = st\<lparr> failed := failed st @ [missing] \<rparr>)"

text \<open>
  What one message replacement does: when the literal is present, the working text is the
  result of the replacement loop; when it is absent, the text is as it was and a warning
  is recorded. Nothing is added to \<open>failed\<close> either way.
\<close>

definition message_outcome ::
  "jsstring \<times> jsstring \<Rightarrow> patch_state \<Rightarrow> patch_state \<Rightarrow> bool" where
  "message_outcome fr st st' \<longleftrightarrow>
     failed st' = failed st
     \<and> (if str_includes (code st) (fst fr)
         then replace_while (fst fr) (snd fr) (code st) = Some (code st')
              \<and> applied st' = applied st @ [appliedMessage (fst fr)]
              \<and> warnings' st' = warnings' st
         else st' = st\<lparr> warnings' := warnings' st @ [warningMessage (fst fr)] \<rparr>)"

definition failingCli :: jsstring where
  \<open>failingCli = js ''class  LTA{type="tmux"}h("[BackendRegistry] Starting backend detection...");if(x){h("[BackendRegistry] Selected: tmux (running inside tmux session)");let Y=EM6();return qW1=Y,ER={backend:Y,isNative:!0,needsIt2Setup:!1},ER}(await CA(T9,["-V"])).code===0;case"iterm2":return CI4()`insideTmux=${Fq()}`''\<close>

definition failingStart :: jsstring where
  "failingStart = cascadeAnchor @ failingCli"

definition message_text :: "jsstring \<Rightarrow> bool" where
  "message_text w \<longleftrightarrow> w \<in> fst ` set errorMsgReplacements"

section \<open>The message replacements\<close>

abbreviation replace1 :: jsstring where "replace1 \<equiv> snd (errorMsgReplacements ! 0)"

abbreviation replace2 :: jsstring where "replace2 \<equiv> snd (errorMsgReplacements ! 1)"

text \<open>The five structural edits alone, with no message step between the fourth and the last.\<close>

definition structural :: "MinifiedNames \<Rightarrow> jsstring \<Rightarrow> patch_state" where
  "structural n source = patch6 n (patch4 n (patch3 n (patch2 n (patch1 n (initial source)))))"

section \<open>Properties\<close>

lemma first_index_None_iff: "first_index w s = None \<longleftrightarrow> \<not> sublist w s"
  by (induction s) (auto simp: sublist_Cons_right)

lemma first_index_SomeD:
  "first_index w s = Some i \<Longrightarrow> i \<le> length s \<and> prefix w (drop i s) \<and> (\<forall>j<i. \<not> prefix w (drop j s))"
proof (induction s arbitrary: i)
  case Nil
  then show ?case by (auto split: if_splits)
next
  case (Cons c s)
  show ?case
  proof (cases "prefix w (c # s)")
    case True
    with Cons.prems show ?thesis by simp
  next
    case False
    with Cons.prems obtain k where k: "first_index w s = Some k" "i = Suc k" by auto
    from Cons.IH[OF k(1)] False k(2) show ?thesis
      by (auto simp: less_Suc_eq_0_disj)
  qed
qed

lemma first_index_SomeI:
  "i \<le> length s \<Longrightarrow> prefix w (drop i s) \<Longrightarrow> (\<forall>j<i. \<not> prefix w (drop j s)) \<Longrightarrow> first_index w s = Some i"
proof (induction s arbitrary: i)
  case Nil
  then show ?case by auto
next
  case (Cons c s)
  show ?case
  proof (cases i)
    case 0
    with Cons.prems show ?thesis by simp
  next
    case (Suc k)
    with Cons.prems have np: "\<not> prefix w (c # s)" by (metis drop0 zero_less_Suc)
    have "first_index w s = Some k"
    proof (rule Cons.IH)
      show "k \<le> length s" using Cons.prems Suc by simp
      show "prefix w (drop k s)" using Cons.prems Suc by simp
      show "\<forall>j<k. \<not> prefix w (drop j s)"
      proof (intro allI impI)
        fix j assume "j < k"
        then have "Suc j < i" using Suc by simp
        with Cons.prems(3) have "\<not> prefix w (drop (Suc j) (c # s))" by blast
        then show "\<not> prefix w (drop j s)" by simp
      qed
    qed
    with np Suc show ?thesis by simp
  qed
qed

lemma str_includes_iff: "str_includes s w \<longleftrightarrow> sublist w s"
  using first_index_None_iff[of w s]
  by (auto simp: str_includes_def indexOf_def split: option.splits)

lemma get_substitution_id: "36 \<notin> set r \<Longrightarrow> get_substitution m pre post r = r"
  by (induction m pre post r rule: get_substitution.induct) auto

lemma first_index_decomp:
  assumes "first_index w s = Some i"
  shows "\<exists>a b. s = a @ w @ b \<and> length a = i \<and> (\<forall>j<i. \<not> prefix w (drop j s))"
proof -
  from first_index_SomeD[OF assms] have il: "i \<le> length s" and p: "prefix w (drop i s)"
    and first: "\<forall>j<i. \<not> prefix w (drop j s)" by blast+
  from p obtain b where b: "drop i s = w @ b" by (auto simp: prefix_def)
  have "s = take i s @ drop i s" by simp
  then have "s = take i s @ w @ b" unfolding b .
  moreover have "length (take i s) = i" using il by simp
  ultimately show ?thesis using first by blast
qed

lemma str_replace_decomp:
  assumes "first_index w s = Some i" "36 \<notin> set r"
  shows "\<exists>a b. s = a @ w @ b \<and> length a = i \<and> (\<forall>j<i. \<not> prefix w (drop j s))
            \<and> str_replace s w r = a @ r @ b"
proof -
  from first_index_decomp[OF assms(1)] obtain a b where
    s: "s = a @ w @ b" and la: "length a = i" and first: "\<forall>j<i. \<not> prefix w (drop j s)" by blast
  have "take i s = a" "drop (i + length w) s = b" using la unfolding s by simp_all
  then have "str_replace s w r = a @ r @ b"
    using assms by (simp add: str_replace_def get_substitution_id)
  with s la first show ?thesis by blast
qed

lemma prefix_app_notin:
  "prefix w (x @ c # y) \<Longrightarrow> c \<notin> set w \<Longrightarrow> prefix w x"
  by (auto simp: prefix_append prefix_Cons)

lemma prefix_app_short:
  "prefix w (x @ y) \<Longrightarrow> length w \<le> length x \<Longrightarrow> prefix w x"
  by (auto simp: prefix_append)

lemma loop_pairD:
  "loop_pair f r \<Longrightarrow> \<exists>c ft rt. f = c # ft \<and> r = c # rt \<and> c \<notin> set ft \<and> c \<notin> set rt
      \<and> \<not> prefix ft rt \<and> length ft \<le> length rt \<and> 36 \<notin> set r"
  by (cases f; cases r) (simp_all add: loop_pair_def)

lemma occ_before:
  assumes "c \<notin> set ft" "j < length a"
    and "prefix (c # ft) (drop j a @ c # y)"
  shows "prefix (c # ft) (drop j a)"
proof -
  have ne: "drop j a \<noteq> []" using assms(2) by simp
  then obtain x0 x' where x: "drop j a = x0 # x'" by (cases "drop j a") auto
  from assms(3) have x0: "x0 = c \<and> prefix ft (x' @ c # y)" unfolding x by auto
  from x0 have "prefix ft (x' @ c # y)" ..
  then have "prefix ft x'" using assms(1) by (rule prefix_app_notin)
  with x0 show ?thesis unfolding x by simp
qed

lemma occ_inside:
  assumes "c \<notin> set rt" "0 < k" "k < Suc (length rt)"
  shows "\<not> prefix (c # ft) (drop k (c # rt) @ y)"
proof -
  from assms(2) obtain k' where k': "k = Suc k'" by (cases k) auto
  with assms(3) have "k' < length rt" by simp
  then have "drop k' rt = rt ! k' # drop (Suc k') rt" "rt ! k' \<in> set rt"
    by (simp_all add: Cons_nth_drop_Suc)
  with assms(1) k' show ?thesis by auto
qed

lemma loop_pair_next:
  assumes lp: "loop_pair f r"
    and first: "\<forall>k<length a. \<not> prefix f (drop k (a @ f @ b))"
    and occ: "prefix f (drop j (a @ r @ b))"
  shows "length a + length r \<le> j"
proof (rule ccontr)
  assume "\<not> length a + length r \<le> j"
  then have jlt: "j < length a + length r" by simp
  from loop_pairD[OF lp] obtain c ft rt where f: "f = c # ft" and r: "r = c # rt"
    and c1: "c \<notin> set ft" and c2: "c \<notin> set rt" and np: "\<not> prefix ft rt" and len: "length ft \<le> length rt"
    by blast
  have rl: "length r = Suc (length rt)" using r by simp
  consider "j < length a" | "j = length a" | "length a < j" by linarith
  then show False
  proof cases
    case 1
    have "drop j (a @ r @ b) = drop j a @ c # (rt @ b)" using 1 r by simp
    with occ have "prefix (c # ft) (drop j a @ c # (rt @ b))" unfolding f by simp
    then have "prefix (c # ft) (drop j a)" by (rule occ_before[OF c1 1])
    then have "prefix (c # ft) (drop j a @ f @ b)" by (rule prefix_prefix)
    moreover have "drop j (a @ f @ b) = drop j a @ f @ b" using 1 by simp
    ultimately have "prefix f (drop j (a @ f @ b))" unfolding f by simp
    with first 1 show False by blast
  next
    case 2
    have "drop j (a @ r @ b) = c # (rt @ b)" using 2 r by simp
    with occ f have "prefix ft (rt @ b)" by simp
    then have "prefix ft rt" using len by (rule prefix_app_short)
    with np show False by blast
  next
    case 3
    define k where "k = j - length a"
    have k: "0 < k" "k < Suc (length rt)" using 3 jlt rl unfolding k_def by linarith+
    have "drop j (a @ (r @ b)) = drop k (r @ b)"
      using 3 unfolding k_def by simp
    also have "drop k (r @ b) = drop k r @ b"
      using k(2) rl by simp
    finally have "drop j (a @ r @ b) = drop k (c # rt) @ b" unfolding r .
    with occ f have "prefix (c # ft) (drop k (c # rt) @ b)" by simp
    with occ_inside[OF c2 k] show False by blast
  qed
qed

lemma str_includes_first_index: "str_includes s w \<longleftrightarrow> first_index w s \<noteq> None"
  by (auto simp: str_includes_def indexOf_def split: option.splits)

lemma loop_measure_decreases:
  assumes lp: "loop_pair f r"
    and first: "\<forall>k<length a. \<not> prefix f (drop k (a @ f @ b))"
  shows "loop_measure f (a @ r @ b) < loop_measure f (a @ f @ b)"
proof -
  from loop_pairD[OF lp] obtain c ft where f: "f = c # ft" by blast
  have "prefix f (drop (length a) (a @ f @ b))" by simp
  with first have "first_index f (a @ f @ b) = Some (length a)"
    by (intro first_index_SomeI) simp_all
  then have m: "loop_measure f (a @ f @ b) = length f + length b"
    by (simp add: loop_measure_def)
  show ?thesis
  proof (cases "first_index f (a @ r @ b)")
    case None
    then show ?thesis using m f by (simp add: loop_measure_def)
  next
    case (Some i')
    from first_index_SomeD[OF Some] have "prefix f (drop i' (a @ r @ b))" by blast
    from loop_pair_next[OF lp first this] have "length a + length r \<le> i'" .
    then have "loop_measure f (a @ r @ b) \<le> length b"
      using Some by (simp add: loop_measure_def)
    then show ?thesis using m f by simp
  qed
qed

lemma replace_while_rule:
  assumes lp: "loop_pair f r"
    and init: "P s"
    and step: "\<And>a b. P (a @ f @ b) \<Longrightarrow> (\<forall>k<length a. \<not> prefix f (drop k (a @ f @ b))) \<Longrightarrow> P (a @ r @ b)"
  shows "\<exists>y. replace_while f r s = Some y \<and> P y \<and> \<not> str_includes y f"
  using init
proof (induction "loop_measure f s" arbitrary: s rule: less_induct)
  case less
  show ?case
  proof (cases "first_index f s")
    case None
    then have "\<not> str_includes s f" by (simp add: str_includes_first_index)
    then have "replace_while f r s = Some s" by (subst replace_while.simps) simp
    with less.prems \<open>\<not> str_includes s f\<close> show ?thesis by simp
  next
    case (Some i)
    from loop_pairD[OF lp] have nd: "36 \<notin> set r" by blast
    from str_replace_decomp[OF Some nd] obtain a b where
      s: "s = a @ f @ b" and la: "length a = i" and first: "\<forall>j<i. \<not> prefix f (drop j s)"
      and rep: "str_replace s f r = a @ r @ b" by blast
    from first have first': "\<forall>k<length a. \<not> prefix f (drop k (a @ f @ b))"
      unfolding s la .
    have lt: "loop_measure f (a @ r @ b) < loop_measure f s"
      unfolding s by (rule loop_measure_decreases[OF lp first'])
    have "P (a @ r @ b)" using less.prems step first' unfolding s by blast
    from less.hyps[OF lt this] obtain y where
      y: "replace_while f r (a @ r @ b) = Some y" "P y" "\<not> str_includes y f" by blast
    have "str_includes s f" using Some by (simp add: str_includes_first_index)
    then have "replace_while f r s = replace_while f r (a @ r @ b)"
      by (subst replace_while.simps) (simp add: rep)
    with y show ?thesis by simp
  qed
qed

lemma replace_while_terminates:
  "loop_pair f r \<Longrightarrow> \<exists>y. replace_while f r s = Some y"
  using replace_while_rule[of f r "\<lambda>_. True" s] by blast

lemma loop_pair_1: "loop_pair (fst (errorMsgReplacements ! 0)) (snd (errorMsgReplacements ! 0))"
  by (simp add: errorMsgReplacements_def loop_pair_def js_def)

lemma loop_pair_2: "loop_pair (fst (errorMsgReplacements ! 1)) (snd (errorMsgReplacements ! 1))"
  by (simp add: errorMsgReplacements_def loop_pair_def js_def)

lemma length_entry: "length (entry b x) + length (entry (\<not> b) y) = 1"
  by (simp add: entry_def)

lemma replaceMessage_shape:
  assumes "loop_pair f r"
  shows "\<exists>c'. replaceMessage (f, r) st =
            Some (st\<lparr> code := c',
                     applied := applied st @ entry (str_includes (code st) f) (appliedMessage f),
                     warnings' := warnings' st @ entry (\<not> str_includes (code st) f) (warningMessage f) \<rparr>)
          \<and> (\<not> str_includes (code st) f \<longrightarrow> c' = code st)"
proof (cases "str_includes (code st) f")
  case True
  from replace_while_terminates[OF assms] obtain y where "replace_while f r (code st) = Some y" by blast
  with True show ?thesis by (intro exI[of _ y]) (simp add: replaceMessage_def entry_def)
next
  case False
  then show ?thesis by (intro exI[of _ "code st"]) (simp add: replaceMessage_def entry_def)
qed

lemma errorMsgReplacements_pairs:
  "errorMsgReplacements = [(find1, snd (errorMsgReplacements ! 0)), (find2, snd (errorMsgReplacements ! 1))]"
  by (simp add: errorMsgReplacements_def)

lemma patch5_shape:
  "\<exists>c' m1 m2. patch5 st =
      Some (st\<lparr> code := c',
               applied := applied st @ entry m1 (appliedMessage find1) @ entry m2 (appliedMessage find2),
               warnings' := warnings' st @ entry (\<not> m1) (warningMessage find1)
                              @ entry (\<not> m2) (warningMessage find2) \<rparr>)
      \<and> m1 = str_includes (code st) find1"
proof -
  let ?r1 = "snd (errorMsgReplacements ! 0)" and ?r2 = "snd (errorMsgReplacements ! 1)"
  from replaceMessage_shape[OF loop_pair_1, of st] obtain c1 where
    1: "replaceMessage (find1, ?r1) st =
            Some (st\<lparr> code := c1,
                     applied := applied st @ entry (str_includes (code st) find1) (appliedMessage find1),
                     warnings' := warnings' st @ entry (\<not> str_includes (code st) find1) (warningMessage find1) \<rparr>)"
    by auto
  let ?st1 = "st\<lparr> code := c1,
                     applied := applied st @ entry (str_includes (code st) find1) (appliedMessage find1),
                     warnings' := warnings' st @ entry (\<not> str_includes (code st) find1) (warningMessage find1) \<rparr>"
  from replaceMessage_shape[OF loop_pair_2, of ?st1] obtain c2 where
    2: "replaceMessage (find2, ?r2) ?st1 =
            Some (?st1\<lparr> code := c2,
                     applied := applied ?st1 @ entry (str_includes (code ?st1) find2) (appliedMessage find2),
                     warnings' := warnings' ?st1 @ entry (\<not> str_includes (code ?st1) find2) (warningMessage find2) \<rparr>)"
    by auto
  have "patch5 st = replaceMessages [(find1, ?r1), (find2, ?r2)] st"
    unfolding patch5_def using errorMsgReplacements_pairs by simp
  also have "\<dots> = Some (?st1\<lparr> code := c2,
                     applied := applied ?st1 @ entry (str_includes (code ?st1) find2) (appliedMessage find2),
                     warnings' := warnings' ?st1 @ entry (\<not> str_includes (code ?st1) find2) (warningMessage find2) \<rparr>)"
    using 1 2 by simp
  finally show ?thesis by auto
qed

lemma patch1_shape:
  "patch1 n st = st\<lparr> code := code (patch1 n st),
       applied := applied st @ entry (str_includes (code st) (tmuxBackendAnchor n)) patch1Applied,
       failed := failed st @ entry (\<not> str_includes (code st) (tmuxBackendAnchor n)) patch1Failed \<rparr>"
  by (simp add: patch1_def entry_def Let_def)

lemma patch2_shape:
  "patch2 n st = st\<lparr> code := code (patch2 n st),
       applied := applied st @ entry (cascadeFound (code st)) patch2Applied,
       failed := failed st @ entry (\<not> cascadeFound (code st))
         (if str_includes (code st) cascadeAnchor then patch2FailedStart else patch2FailedAnchor) \<rparr>"
  by (simp add: patch2_def entry_def Let_def cascadeFound_def cascadeWindow_def split: option.splits)

lemma patch3_shape:
  "patch3 n st = st\<lparr> code := code (patch3 n st),
       applied := applied st @ entry (str_includes (code st) errorAnchor) patch3Applied,
       failed := failed st @ entry (\<not> str_includes (code st) errorAnchor) patch3Failed \<rparr>"
  by (simp add: patch3_def entry_def)

lemma patch4_shape:
  "patch4 n st = st\<lparr> code := code (patch4 n st),
       applied := applied st @ entry (str_includes (code st) (backendByTypeAnchor n)) patch4Applied,
       failed := failed st @ entry (\<not> str_includes (code st) (backendByTypeAnchor n)) patch4Failed \<rparr>"
  by (simp add: patch4_def entry_def)

lemma patch6_shape:
  "patch6 n st = st\<lparr> code := code (patch6 n st),
       applied := applied st @ entry (str_includes (code st) (inProcessAnchor n)) patch6Applied,
       failed := failed st @ entry (\<not> str_includes (code st) (inProcessAnchor n)) patch6Failed \<rparr>"
  by (simp add: patch6_def entry_def)

lemma run_edits_shape:
  "\<exists>c' b1 b2 b3 b4 m1 m2 b6 f2.
     run_edits n s = Some
       \<lparr> code = c',
         applied = entry b1 patch1Applied @ entry b2 patch2Applied @ entry b3 patch3Applied
                   @ entry b4 patch4Applied @ entry m1 (appliedMessage find1)
                   @ entry m2 (appliedMessage find2) @ entry b6 patch6Applied,
         failed = entry (\<not> b1) patch1Failed @ entry (\<not> b2) f2 @ entry (\<not> b3) patch3Failed
                   @ entry (\<not> b4) patch4Failed @ entry (\<not> b6) patch6Failed,
         warnings' = entry (\<not> m1) (warningMessage find1) @ entry (\<not> m2) (warningMessage find2) \<rparr>
     \<and> f2 \<in> {patch2FailedAnchor, patch2FailedStart}"
proof -
  define st0 where "st0 = \<lparr> code = s, applied = [], failed = [], warnings' = [] \<rparr>"
  define st1 where "st1 = patch1 n st0"
  define st2 where "st2 = patch2 n st1"
  define st3 where "st3 = patch3 n st2"
  define st4 where "st4 = patch4 n st3"
  from patch5_shape[of st4] obtain c5 m1 m2 where
    5: "patch5 st4 = Some (st4\<lparr> code := c5,
               applied := applied st4 @ entry m1 (appliedMessage find1) @ entry m2 (appliedMessage find2),
               warnings' := warnings' st4 @ entry (\<not> m1) (warningMessage find1)
                              @ entry (\<not> m2) (warningMessage find2) \<rparr>)" by blast
  define st5 where "st5 = st4\<lparr> code := c5,
               applied := applied st4 @ entry m1 (appliedMessage find1) @ entry m2 (appliedMessage find2),
               warnings' := warnings' st4 @ entry (\<not> m1) (warningMessage find1)
                              @ entry (\<not> m2) (warningMessage find2) \<rparr>"
  define b1 where "b1 = str_includes (code st0) (tmuxBackendAnchor n)"
  define b2 where "b2 = cascadeFound (code st1)"
  define f2 where "f2 = (if str_includes (code st1) cascadeAnchor then patch2FailedStart else patch2FailedAnchor)"
  define b3 where "b3 = str_includes (code st2) errorAnchor"
  define b4 where "b4 = str_includes (code st3) (backendByTypeAnchor n)"
  define b6 where "b6 = str_includes (code st5) (inProcessAnchor n)"
  have a1: "applied st1 = entry b1 patch1Applied" "failed st1 = entry (\<not> b1) patch1Failed" "warnings' st1 = []"
    unfolding st1_def b1_def by (subst patch1_shape, simp add: st0_def)+
  have a2: "applied st2 = applied st1 @ entry b2 patch2Applied" "failed st2 = failed st1 @ entry (\<not> b2) f2"
    "warnings' st2 = warnings' st1"
    unfolding st2_def b2_def f2_def by (subst patch2_shape, simp)+
  have a3: "applied st3 = applied st2 @ entry b3 patch3Applied" "failed st3 = failed st2 @ entry (\<not> b3) patch3Failed"
    "warnings' st3 = warnings' st2"
    unfolding st3_def b3_def by (subst patch3_shape, simp)+
  have a4: "applied st4 = applied st3 @ entry b4 patch4Applied" "failed st4 = failed st3 @ entry (\<not> b4) patch4Failed"
    "warnings' st4 = warnings' st3"
    unfolding st4_def b4_def by (subst patch4_shape, simp)+
  have a5: "applied st5 = applied st4 @ entry m1 (appliedMessage find1) @ entry m2 (appliedMessage find2)"
    "failed st5 = failed st4"
    "warnings' st5 = warnings' st4 @ entry (\<not> m1) (warningMessage find1) @ entry (\<not> m2) (warningMessage find2)"
    unfolding st5_def by simp_all
  have a6: "applied (patch6 n st5) = applied st5 @ entry b6 patch6Applied"
    "failed (patch6 n st5) = failed st5 @ entry (\<not> b6) patch6Failed"
    "warnings' (patch6 n st5) = warnings' st5"
    unfolding b6_def by (subst patch6_shape, simp)+
  have run: "run_edits n s = Some (patch6 n st5)"
    unfolding run_edits_def using 5
    by (simp add: st5_def st4_def st3_def st2_def st1_def st0_def)
  have f2: "f2 \<in> {patch2FailedAnchor, patch2FailedStart}" by (simp add: f2_def)
  have "patch6 n st5 = \<lparr> code = code (patch6 n st5),
         applied = entry b1 patch1Applied @ entry b2 patch2Applied @ entry b3 patch3Applied
                   @ entry b4 patch4Applied @ entry m1 (appliedMessage find1)
                   @ entry m2 (appliedMessage find2) @ entry b6 patch6Applied,
         failed = entry (\<not> b1) patch1Failed @ entry (\<not> b2) f2 @ entry (\<not> b3) patch3Failed
                   @ entry (\<not> b4) patch4Failed @ entry (\<not> b6) patch6Failed,
         warnings' = entry (\<not> m1) (warningMessage find1) @ entry (\<not> m2) (warningMessage find2) \<rparr>"
    by (rule patch_state.equality) (simp_all add: a1 a2 a3 a4 a5 a6)
  with run f2 show ?thesis by metis
qed

lemma char_codes:
  \<open>of_char CHR '' '' = (32::nat)\<close>
  \<open>of_char CHR ''!'' = (33::nat)\<close>
  \<open>of_char CHR ''"'' = (34::nat)\<close>
  \<open>of_char CHR ''#'' = (35::nat)\<close>
  \<open>of_char CHR ''$'' = (36::nat)\<close>
  \<open>of_char CHR ''%'' = (37::nat)\<close>
  \<open>of_char CHR ''&'' = (38::nat)\<close>
  \<open>of_char CHR ''('' = (40::nat)\<close>
  \<open>of_char CHR '')'' = (41::nat)\<close>
  \<open>of_char CHR ''*'' = (42::nat)\<close>
  \<open>of_char CHR ''+'' = (43::nat)\<close>
  \<open>of_char CHR '','' = (44::nat)\<close>
  \<open>of_char CHR ''-'' = (45::nat)\<close>
  \<open>of_char CHR ''.'' = (46::nat)\<close>
  \<open>of_char CHR ''/'' = (47::nat)\<close>
  \<open>of_char CHR ''0'' = (48::nat)\<close>
  \<open>of_char CHR ''1'' = (49::nat)\<close>
  \<open>of_char CHR ''2'' = (50::nat)\<close>
  \<open>of_char CHR ''3'' = (51::nat)\<close>
  \<open>of_char CHR ''4'' = (52::nat)\<close>
  \<open>of_char CHR ''5'' = (53::nat)\<close>
  \<open>of_char CHR ''6'' = (54::nat)\<close>
  \<open>of_char CHR ''7'' = (55::nat)\<close>
  \<open>of_char CHR ''8'' = (56::nat)\<close>
  \<open>of_char CHR ''9'' = (57::nat)\<close>
  \<open>of_char CHR '':'' = (58::nat)\<close>
  \<open>of_char CHR '';'' = (59::nat)\<close>
  \<open>of_char CHR ''<'' = (60::nat)\<close>
  \<open>of_char CHR ''='' = (61::nat)\<close>
  \<open>of_char CHR ''>'' = (62::nat)\<close>
  \<open>of_char CHR ''?'' = (63::nat)\<close>
  \<open>of_char CHR ''@'' = (64::nat)\<close>
  \<open>of_char CHR ''A'' = (65::nat)\<close>
  \<open>of_char CHR ''B'' = (66::nat)\<close>
  \<open>of_char CHR ''C'' = (67::nat)\<close>
  \<open>of_char CHR ''D'' = (68::nat)\<close>
  \<open>of_char CHR ''E'' = (69::nat)\<close>
  \<open>of_char CHR ''F'' = (70::nat)\<close>
  \<open>of_char CHR ''G'' = (71::nat)\<close>
  \<open>of_char CHR ''H'' = (72::nat)\<close>
  \<open>of_char CHR ''I'' = (73::nat)\<close>
  \<open>of_char CHR ''J'' = (74::nat)\<close>
  \<open>of_char CHR ''K'' = (75::nat)\<close>
  \<open>of_char CHR ''L'' = (76::nat)\<close>
  \<open>of_char CHR ''M'' = (77::nat)\<close>
  \<open>of_char CHR ''N'' = (78::nat)\<close>
  \<open>of_char CHR ''O'' = (79::nat)\<close>
  \<open>of_char CHR ''P'' = (80::nat)\<close>
  \<open>of_char CHR ''Q'' = (81::nat)\<close>
  \<open>of_char CHR ''R'' = (82::nat)\<close>
  \<open>of_char CHR ''S'' = (83::nat)\<close>
  \<open>of_char CHR ''T'' = (84::nat)\<close>
  \<open>of_char CHR ''U'' = (85::nat)\<close>
  \<open>of_char CHR ''V'' = (86::nat)\<close>
  \<open>of_char CHR ''W'' = (87::nat)\<close>
  \<open>of_char CHR ''X'' = (88::nat)\<close>
  \<open>of_char CHR ''Y'' = (89::nat)\<close>
  \<open>of_char CHR ''Z'' = (90::nat)\<close>
  \<open>of_char CHR ''['' = (91::nat)\<close>
  \<open>of_char CHR '']'' = (93::nat)\<close>
  \<open>of_char CHR ''^'' = (94::nat)\<close>
  \<open>of_char CHR ''_'' = (95::nat)\<close>
  \<open>of_char CHR ''`'' = (96::nat)\<close>
  \<open>of_char CHR ''a'' = (97::nat)\<close>
  \<open>of_char CHR ''b'' = (98::nat)\<close>
  \<open>of_char CHR ''c'' = (99::nat)\<close>
  \<open>of_char CHR ''d'' = (100::nat)\<close>
  \<open>of_char CHR ''e'' = (101::nat)\<close>
  \<open>of_char CHR ''f'' = (102::nat)\<close>
  \<open>of_char CHR ''g'' = (103::nat)\<close>
  \<open>of_char CHR ''h'' = (104::nat)\<close>
  \<open>of_char CHR ''i'' = (105::nat)\<close>
  \<open>of_char CHR ''j'' = (106::nat)\<close>
  \<open>of_char CHR ''k'' = (107::nat)\<close>
  \<open>of_char CHR ''l'' = (108::nat)\<close>
  \<open>of_char CHR ''m'' = (109::nat)\<close>
  \<open>of_char CHR ''n'' = (110::nat)\<close>
  \<open>of_char CHR ''o'' = (111::nat)\<close>
  \<open>of_char CHR ''p'' = (112::nat)\<close>
  \<open>of_char CHR ''q'' = (113::nat)\<close>
  \<open>of_char CHR ''r'' = (114::nat)\<close>
  \<open>of_char CHR ''s'' = (115::nat)\<close>
  \<open>of_char CHR ''t'' = (116::nat)\<close>
  \<open>of_char CHR ''u'' = (117::nat)\<close>
  \<open>of_char CHR ''v'' = (118::nat)\<close>
  \<open>of_char CHR ''w'' = (119::nat)\<close>
  \<open>of_char CHR ''x'' = (120::nat)\<close>
  \<open>of_char CHR ''y'' = (121::nat)\<close>
  \<open>of_char CHR ''z'' = (122::nat)\<close>
  \<open>of_char CHR ''{'' = (123::nat)\<close>
  \<open>of_char CHR ''|'' = (124::nat)\<close>
  \<open>of_char CHR ''}'' = (125::nat)\<close>
  \<open>of_char CHR ''~'' = (126::nat)\<close>
  by simp_all

lemma lit_eval:
  "lit w (c # s) = (if prefix w (c # s) then Some (drop (length w) (c # s)) else None)"
  "lit w [] = (if w = [] then Some [] else None)"
  by (simp_all add: lit_def)

lemma many1_eval:
  "p c \<Longrightarrow> many1 p (c # s) = Some (c # takeWhile p s, dropWhile p s)"
  "\<not> p c \<Longrightarrow> many1 p (c # s) = None"
  "many1 p [] = None"
  by (simp_all add: many1_def)

lemma while_eval:
  "p c \<Longrightarrow> takeWhile p (c # s) = c # takeWhile p s"
  "\<not> p c \<Longrightarrow> takeWhile p (c # s) = []"
  "takeWhile p [] = []"
  "p c \<Longrightarrow> dropWhile p (c # s) = dropWhile p s"
  "\<not> p c \<Longrightarrow> dropWhile p (c # s) = c # s"
  "dropWhile p [] = []"
  by simp_all

lemma class_eval:
  "is_word (numeral k) \<longleftrightarrow>
     (97 \<le> (numeral k :: nat) \<and> (numeral k :: nat) \<le> 122) \<or> (65 \<le> (numeral k :: nat) \<and> (numeral k :: nat) \<le> 90)
     \<or> (48 \<le> (numeral k :: nat) \<and> (numeral k :: nat) \<le> 57) \<or> (numeral k :: nat) = 95"
  "is_ident (numeral k) \<longleftrightarrow> is_word (numeral k) \<or> (numeral k :: nat) = 36"
  "is_space (numeral k) \<longleftrightarrow>
     (9 \<le> (numeral k :: nat) \<and> (numeral k :: nat) \<le> 13) \<or> (numeral k :: nat) = 32 \<or> (numeral k :: nat) = 160
     \<or> (numeral k :: nat) = 5760 \<or> (8192 \<le> (numeral k :: nat) \<and> (numeral k :: nat) \<le> 8202)
     \<or> (numeral k :: nat) = 8232 \<or> (numeral k :: nat) = 8233 \<or> (numeral k :: nat) = 8239
     \<or> (numeral k :: nat) = 8287 \<or> (numeral k :: nat) = 12288 \<or> (numeral k :: nat) = 65279"
  by (simp_all only: is_word_def is_ident_def is_space_def)

lemmas eval_rules =
  js_def list.map char_codes
  first_index.simps last_index.simps first_match.simps
  Cons_prefix_Cons prefix_Nil prefix_bot.extremum
  numeral_eq_iff num.simps numeral_le_iff le_num_simps numeral_less_iff less_num_simps
  simp_thms if_True if_False
  option.map option.simps option.case list.simps list.case
  Option.bind.simps split_conv case_prod_conv prod.case
  lit_eval many1_eval class_eval
  while_eval drop_Suc_Cons drop_0 list.size
  add_Suc_right add_0_right add_0_left drop_Nil
  append.simps
  str_includes_first_index
  looksLikeCli_def isPatched_def
  tmuxClass_at_def tmuxClassMatch_def cascade_at_def cascadeMatch_def exec_at_def execMatch_def
  iterm2_at_def iterm2Match_def log_at_def logMatch_def tmuxSync_at_def tmuxSyncMatch_def
  letK_at_def letKMatch_def

lemma sample_guards: "looksLikeCli sampleCli" "\<not> isPatched sampleCli"
  unfolding sampleCli_def by (simp_all only: eval_rules)

lemma s1:  "tmuxClassMatch sampleCli = Some (js ''LTA'')"
  unfolding sampleCli_def by (simp_all only: eval_rules)

lemma s2:  "cascadeMatch sampleCli = Some (js ''EM6'', js ''qW1'', js ''ER'')"
  unfolding sampleCli_def by (simp_all only: eval_rules)

lemma s3:  "execMatch sampleCli = Some (js ''CA'')"
  unfolding sampleCli_def by (simp_all only: eval_rules)

lemma s4:  "iterm2Match sampleCli = Some (js ''CI4'')"
  unfolding sampleCli_def by (simp_all only: eval_rules)

lemma s5:  "logMatch sampleCli = Some (js ''h'')"
  unfolding sampleCli_def by (simp_all only: eval_rules)

lemma s6:  "tmuxSyncMatch sampleCli = Some (js ''Fq'')"
  unfolding sampleCli_def by (simp_all only: eval_rules)

lemmas sample_matches = s1 s2 s3 s4 s5 s6

lemma sample_names: "extractMinifiedNames sampleCli = Some sampleNames"
  by (simp add: extractMinifiedNames_def sample_matches sampleNames_def)

section \<open>The report\<close>

lemma patchCliSource_edit_phase:
  assumes "looksLikeCli s" "\<not> isPatched s" "extractMinifiedNames s = Some n"
  shows "patchCliSource s = map_option report (run_edits n s)"
  using assms by (simp add: patchCliSource_def patchCliSourceWith_def)

lemma patchCliSource_returns: "\<exists>r. patchCliSource s = Some r"
proof -
  from run_edits_shape obtain st where "run_edits (the (extractMinifiedNames s)) s = Some st" by blast
  then show ?thesis
    by (auto simp: patchCliSource_def patchCliSourceWith_def split: option.splits)
qed

text \<open>
  C2. For every input, \<open>patchCliSource\<close> returns a report in which \<open>success\<close> holds exactly
  when \<open>failedPatches\<close> is empty, and \<open>patchedSource\<close> is present exactly when \<open>success\<close>
  holds.
\<close>

theorem report_invariant:
  "\<exists>r. patchCliSource s = Some r
       \<and> (success r \<longleftrightarrow> failedPatches r = [])
       \<and> (patchedSource r \<noteq> None \<longleftrightarrow> success r)"
proof -
  from patchCliSource_returns obtain r where r: "patchCliSource s = Some r" by blast
  then have "r = notRecognized \<or> r = alreadyPatched \<or> r = extractionFailed \<or> (\<exists>st. r = report st)"
    by (auto simp: patchCliSource_def patchCliSourceWith_def split: if_splits option.splits)
  then have "(success r \<longleftrightarrow> failedPatches r = []) \<and> (patchedSource r \<noteq> None \<longleftrightarrow> success r)"
    by (auto simp: notRecognized_def alreadyPatched_def extractionFailed_def report_def split: if_splits)
  with r show ?thesis by blast
qed

theorem report_invariant_witness:
  "\<exists>r. patchCliSource sampleCli = Some r
       \<and> (success r \<longleftrightarrow> failedPatches r = [])
       \<and> (patchedSource r \<noteq> None \<longleftrightarrow> success r)"
  using report_invariant [of sampleCli] .

text \<open>
  C3, as the code has it. The check that the file looks like the command line's bundle
  comes first: a text that carries a signature token of the injected code is reported as
  already patched only when both baseline markers are present, and as not recognized
  otherwise. The already-patched report comes before any extraction.
\<close>

theorem already_patched_after_recognition:
  assumes "isPatched s"
  shows "patchCliSourceWith extract s = Some (if looksLikeCli s then alreadyPatched else notRecognized)
       \<and> patchCliSource s = Some (if looksLikeCli s then alreadyPatched else notRecognized)"
  using assms by (simp add: patchCliSource_def patchCliSourceWith_def)

theorem already_patched_after_recognition_witness:
  "isPatched barePatched \<and> patchCliSource barePatched = Some notRecognized"
proof -
  have h: "isPatched barePatched" unfolding barePatched_def by (simp only: eval_rules)
  have n: "\<not> looksLikeCli barePatched" unfolding barePatched_def by (simp only: eval_rules)
  from already_patched_after_recognition [OF h, of extractMinifiedNames] n h show ?thesis by simp
qed

text \<open>
  C3, as the claim states it, fails: the text \<open>ZellijBackendImpl\<close> carries a signature
  token and lacks the baseline markers, and the report is the not-recognized one.
\<close>

theorem already_patched_precedence_counterexample:
  "isPatched barePatched \<and> \<not> looksLikeCli barePatched
   \<and> patchCliSource barePatched = Some notRecognized
   \<and> patchCliSource barePatched \<noteq> Some alreadyPatched"
proof -
  have h: "isPatched barePatched" unfolding barePatched_def by (simp only: eval_rules)
  have n: "\<not> looksLikeCli barePatched" unfolding barePatched_def by (simp only: eval_rules)
  have "patchCliSource barePatched = Some notRecognized"
    using n by (simp add: patchCliSource_def patchCliSourceWith_def)
  moreover have "notRecognized \<noteq> alreadyPatched"
    by (simp add: notRecognized_def alreadyPatched_def js_def)
  ultimately show ?thesis using h n by simp
qed

text \<open>
  C5. Extraction is all or nothing. If any one of the six searches fails, the extractor
  returns no bundle, and the run reports one of the three fatal results with no edit
  attempted: nothing applied, no warning, no patched text, and (past the two guards) the
  extraction failure itself. When the extractor does return a bundle, each of its eight
  fields is the capture of the search for that role.
\<close>

theorem extraction_all_or_nothing:
  "(tmuxClassMatch s = None \<or> cascadeMatch s = None \<or> execMatch s = None
      \<or> iterm2Match s = None \<or> logMatch s = None \<or> tmuxSyncMatch s = None
    \<longrightarrow> extractMinifiedNames s = None
        \<and> patchCliSource s \<in> {Some notRecognized, Some alreadyPatched, Some extractionFailed}
        \<and> (looksLikeCli s \<and> \<not> isPatched s \<longrightarrow> patchCliSource s = Some extractionFailed)
        \<and> (\<forall>r. patchCliSource s = Some r \<longrightarrow>
              \<not> success r \<and> patchedSource r = None \<and> appliedPatches r = [] \<and> warnings r = []))
   \<and> (\<forall>n. extractMinifiedNames s = Some n \<longrightarrow>
          tmuxClassMatch s = Some (tmuxBackendClass n)
        \<and> cascadeMatch s = Some (tmuxFactory n, cachedBackendRef n, cachedResultVar n)
        \<and> execMatch s = Some (execFn n)
        \<and> iterm2Match s = Some (iterm2Factory n)
        \<and> logMatch s = Some (logFn n)
        \<and> tmuxSyncMatch s = Some (isInsideTmuxSyncFn n))"
proof (intro conjI impI allI)
  fix n assume "extractMinifiedNames s = Some n"
  then have all: "tmuxClassMatch s = Some (tmuxBackendClass n)
        \<and> cascadeMatch s = Some (tmuxFactory n, cachedBackendRef n, cachedResultVar n)
        \<and> execMatch s = Some (execFn n)
        \<and> iterm2Match s = Some (iterm2Factory n)
        \<and> logMatch s = Some (logFn n)
        \<and> tmuxSyncMatch s = Some (isInsideTmuxSyncFn n)"
    by (auto simp: extractMinifiedNames_def split: Option.bind_splits)
  from all show "tmuxClassMatch s = Some (tmuxBackendClass n)" by blast
  from all show "cascadeMatch s = Some (tmuxFactory n, cachedBackendRef n, cachedResultVar n)" by blast
  from all show "execMatch s = Some (execFn n)" by blast
  from all show "iterm2Match s = Some (iterm2Factory n)" by blast
  from all show "logMatch s = Some (logFn n)" by blast
  from all show "tmuxSyncMatch s = Some (isInsideTmuxSyncFn n)" by blast
next
  assume a: "tmuxClassMatch s = None \<or> cascadeMatch s = None \<or> execMatch s = None
      \<or> iterm2Match s = None \<or> logMatch s = None \<or> tmuxSyncMatch s = None"
  then show none: "extractMinifiedNames s = None"
    by (auto simp: extractMinifiedNames_def split: Option.bind_splits)
  then show "patchCliSource s \<in> {Some notRecognized, Some alreadyPatched, Some extractionFailed}"
    by (simp add: patchCliSource_def patchCliSourceWith_def)
  { assume "looksLikeCli s \<and> \<not> isPatched s"
    with none show "patchCliSource s = Some extractionFailed"
      by (simp add: patchCliSource_def patchCliSourceWith_def) }
  { fix r assume "patchCliSource s = Some r"
    with none have r: "r = notRecognized \<or> r = alreadyPatched \<or> r = extractionFailed"
      by (auto simp: patchCliSource_def patchCliSourceWith_def split: if_splits)
    from r show "\<not> success r"
      by (auto simp: notRecognized_def alreadyPatched_def extractionFailed_def)
    from r show "patchedSource r = None"
      by (auto simp: notRecognized_def alreadyPatched_def extractionFailed_def)
    from r show "appliedPatches r = []"
      by (auto simp: notRecognized_def alreadyPatched_def extractionFailed_def)
    from r show "warnings r = []"
      by (auto simp: notRecognized_def alreadyPatched_def extractionFailed_def) }
qed

text \<open>
  C6. A text that misses either baseline marker gets the not-recognized report, with no
  success and no patched text, whatever the extractor is: the result does not consult it.
\<close>

theorem not_recognized_before_extraction:
  assumes "\<not> str_includes s (js ''BackendRegistry'') \<or> \<not> str_includes s (js ''type=\"tmux\"'')"
  shows "patchCliSourceWith extract s = Some notRecognized
       \<and> patchCliSource s = Some notRecognized
       \<and> \<not> success notRecognized \<and> patchedSource notRecognized = None"
  using assms
  by (auto simp: patchCliSource_def patchCliSourceWith_def looksLikeCli_def notRecognized_def)

text \<open>
  C9. With no backup at the path plus \<open>.bak\<close>, \<open>removePatch\<close> returns \<open>false\<close> and the file
  system is the one it was given: nothing is copied, and the target file is as before.
  The command then prints the missing backup on the error stream and exits with status 1.
\<close>

theorem restore_without_backup:
  assumes "fs (cliJsPath @ js ''.bak'') = None"
  shows "removePatch fs cliJsPath = Some (False, fs)
       \<and> (\<exists>res. cmdUninstall fs cliJsPath = Some res \<and> files res = fs
              \<and> files res cliJsPath = fs cliJsPath
              \<and> exit_status res = Some 1
              \<and> err res = [js ''Error: No backup found at '' @ cliJsPath @ js ''.bak''])"
  using assms by (simp add: removePatch_def cmdUninstall_def existsSync_def)

lemma patch5_failed: "patch5 st = Some st' \<Longrightarrow> failed st' = failed st"
  using patch5_shape[of st] by auto

lemma patch5_returns: "\<exists>st'. patch5 st = Some st'"
  using patch5_shape[of st] by blast

text \<open>
  C10. Past the two guards and the extraction, the report has seven entries: each of
  the five structural edits is either in \<open>appliedPatches\<close> or, with its failure label,
  in \<open>failedPatches\<close>, and each of the two message pairs is either in
  \<open>appliedPatches\<close> or in \<open>warnings\<close>. The lists are in the order of the source.
\<close>

theorem report_has_seven_entries:
  assumes "looksLikeCli s" "\<not> isPatched s" "extractMinifiedNames s = Some n"
  shows "\<exists>r b1 b2 b3 b4 m1 m2 b6 f2.
     patchCliSource s = Some r
     \<and> appliedPatches r =
          entry b1 patch1Applied @ entry b2 patch2Applied @ entry b3 patch3Applied
          @ entry b4 patch4Applied @ entry m1 (appliedMessage find1)
          @ entry m2 (appliedMessage find2) @ entry b6 patch6Applied
     \<and> failedPatches r =
          entry (\<not> b1) patch1Failed @ entry (\<not> b2) f2 @ entry (\<not> b3) patch3Failed
          @ entry (\<not> b4) patch4Failed @ entry (\<not> b6) patch6Failed
     \<and> warnings r = entry (\<not> m1) (warningMessage find1) @ entry (\<not> m2) (warningMessage find2)
     \<and> f2 \<in> {patch2FailedAnchor, patch2FailedStart}
     \<and> length (appliedPatches r) + length (failedPatches r) + length (warnings r) = 7"
proof -
  from run_edits_shape[of n s] obtain c' b1 b2 b3 b4 m1 m2 b6 f2 where
    run: "run_edits n s = Some
       \<lparr> code = c',
         applied = entry b1 patch1Applied @ entry b2 patch2Applied @ entry b3 patch3Applied
                   @ entry b4 patch4Applied @ entry m1 (appliedMessage find1)
                   @ entry m2 (appliedMessage find2) @ entry b6 patch6Applied,
         failed = entry (\<not> b1) patch1Failed @ entry (\<not> b2) f2 @ entry (\<not> b3) patch3Failed
                   @ entry (\<not> b4) patch4Failed @ entry (\<not> b6) patch6Failed,
         warnings' = entry (\<not> m1) (warningMessage find1) @ entry (\<not> m2) (warningMessage find2) \<rparr>"
    and f2: "f2 \<in> {patch2FailedAnchor, patch2FailedStart}" by blast
  define r where "r = report
       \<lparr> code = c',
         applied = entry b1 patch1Applied @ entry b2 patch2Applied @ entry b3 patch3Applied
                   @ entry b4 patch4Applied @ entry m1 (appliedMessage find1)
                   @ entry m2 (appliedMessage find2) @ entry b6 patch6Applied,
         failed = entry (\<not> b1) patch1Failed @ entry (\<not> b2) f2 @ entry (\<not> b3) patch3Failed
                   @ entry (\<not> b4) patch4Failed @ entry (\<not> b6) patch6Failed,
         warnings' = entry (\<not> m1) (warningMessage find1) @ entry (\<not> m2) (warningMessage find2) \<rparr>"
  have p: "patchCliSource s = Some r"
    using patchCliSource_edit_phase[OF assms] run by (simp add: r_def)
  have a: "appliedPatches r =
          entry b1 patch1Applied @ entry b2 patch2Applied @ entry b3 patch3Applied
          @ entry b4 patch4Applied @ entry m1 (appliedMessage find1)
          @ entry m2 (appliedMessage find2) @ entry b6 patch6Applied"
    and f: "failedPatches r =
          entry (\<not> b1) patch1Failed @ entry (\<not> b2) f2 @ entry (\<not> b3) patch3Failed
          @ entry (\<not> b4) patch4Failed @ entry (\<not> b6) patch6Failed"
    and w: "warnings r = entry (\<not> m1) (warningMessage find1) @ entry (\<not> m2) (warningMessage find2)"
    by (simp_all add: r_def report_def)
  have "length (appliedPatches r) + length (failedPatches r) + length (warnings r) = 7"
    unfolding a f w by (simp add: entry_def)
  with p a f w f2 show ?thesis by blast
qed

theorem extraction_all_or_nothing_witness:
  "tmuxClassMatch markersOnly = None \<and> looksLikeCli markersOnly \<and> \<not> isPatched markersOnly
   \<and> extractMinifiedNames markersOnly = None
   \<and> patchCliSource markersOnly = Some extractionFailed
   \<and> extractMinifiedNames sampleCli = Some sampleNames
   \<and> logMatch sampleCli = Some (logFn sampleNames)"
proof -
  have m: "tmuxClassMatch markersOnly = None"
    unfolding markersOnly_def by (simp only: eval_rules)
  have g: "looksLikeCli markersOnly" "\<not> isPatched markersOnly"
    unfolding markersOnly_def by (simp_all only: eval_rules)
  from extraction_all_or_nothing [of markersOnly] extraction_all_or_nothing [of sampleCli]
    m g sample_names
  show ?thesis by simp
qed

theorem not_recognized_before_extraction_witness:
  "\<not> str_includes (js ''x'') (js ''BackendRegistry'')
   \<and> patchCliSourceWith (\<lambda>c. Some sampleNames) (js ''x'') = Some notRecognized
   \<and> patchCliSource (js ''x'') = Some notRecognized"
proof -
  have h: "\<not> str_includes (js ''x'') (js ''BackendRegistry'')"
    by (simp only: eval_rules)
  from not_recognized_before_extraction [of "js ''x''" "\<lambda>c. Some sampleNames"]
    not_recognized_before_extraction [of "js ''x''" extractMinifiedNames] h
  show ?thesis by simp
qed

theorem restore_without_backup_witness:
  "sampleFiles (js ''cli.js'' @ js ''.bak'') = None
   \<and> removePatch sampleFiles (js ''cli.js'') = Some (False, sampleFiles)"
proof -
  have h: "sampleFiles (js ''cli.js'' @ js ''.bak'') = None"
    by (simp add: sampleFiles_def js_def)
  from restore_without_backup [of sampleFiles "js ''cli.js''"] h show ?thesis by simp
qed

theorem report_has_seven_entries_witness:
  "looksLikeCli sampleCli \<and> \<not> isPatched sampleCli
   \<and> extractMinifiedNames sampleCli = Some sampleNames
   \<and> (\<exists>r. patchCliSource sampleCli = Some r
          \<and> length (appliedPatches r) + length (failedPatches r) + length (warnings r) = 7)"
proof -
  from report_has_seven_entries [OF sample_guards sample_names]
  obtain r where "patchCliSource sampleCli = Some r"
    "length (appliedPatches r) + length (failedPatches r) + length (warnings r) = 7" by blast
  with sample_guards sample_names show ?thesis by blast
qed

lemma sublist_app_cases:
  "sublist w (a @ b) \<Longrightarrow> sublist w a \<or> sublist w b \<or> straddles w a b"
proof -
  assume "sublist w (a @ b)"
  then consider "sublist w a" | "sublist w b"
    | w1 w2 where "w = w1 @ w2" "suffix w1 a" "prefix w2 b"
    by (auto simp: sublist_append)
  then show ?thesis
  proof cases
    case 3
    show ?thesis
    proof (cases "w1 = [] \<or> w2 = []")
      case True
      with 3 show ?thesis by auto
    next
      case False
      with 3 have "straddles w a b" unfolding straddles_def by blast
      then show ?thesis by simp
    qed
  qed simp_all
qed

lemma sublist_insert:
  assumes "sublist w (a @ b)" "\<not> straddles w a b"
  shows "sublist w (a @ ins @ b)"
proof -
  from sublist_app_cases[OF assms(1)] assms(2) have "sublist w a \<or> sublist w b" by blast
  then show ?thesis
  proof
    assume "sublist w a"
    then show ?thesis by (metis sublist_append)
  next
    assume "sublist w b"
    then show ?thesis by (metis sublist_append)
  qed
qed

lemma straddles_last:
  assumes "straddles w a b"
  shows "a \<noteq> [] \<and> last a \<in> set (butlast w)"
proof -
  from assms obtain w1 w2 where w: "w = w1 @ w2" "w1 \<noteq> []" "w2 \<noteq> []" "suffix w1 a"
    unfolding straddles_def by blast
  from w(2,4) have a: "a \<noteq> []" "last a = last w1" by (auto simp: suffix_def)
  from w(1,3) have "butlast w = w1 @ butlast w2" by (simp add: butlast_append)
  with w(2) a show ?thesis by simp
qed

lemma straddles_hd:
  assumes "straddles w a b"
  shows "b \<noteq> [] \<and> hd b \<in> set (tl w)"
proof -
  from assms obtain w1 w2 where w: "w = w1 @ w2" "w1 \<noteq> []" "w2 \<noteq> []" "prefix w2 b"
    unfolding straddles_def by blast
  from w(3,4) have b: "b \<noteq> []" "hd b = hd w2" by (auto simp: prefix_def)
  from w(1,2) have "tl w = tl w1 @ w2" by simp
  with w(3) b show ?thesis by simp
qed

lemma no_overlap_suffix:
  "no_overlap xs l \<Longrightarrow> suffix v xs \<Longrightarrow> v \<noteq> [] \<Longrightarrow> \<not> comparable v l"
proof (induction xs)
  case Nil
  then show ?case by simp
next
  case (Cons x xs)
  from Cons.prems(2) have "v = x # xs \<or> suffix v xs" by (simp add: suffix_Cons)
  then show ?case using Cons by auto
qed

lemma prefix_app_comparable: "prefix v (l @ r) \<Longrightarrow> comparable v l"
  by (auto simp: comparable_def prefix_append)

lemma straddles_clear:
  assumes "no_overlap (tl w) l"
  shows "\<not> straddles w a (l @ r)"
proof
  assume "straddles w a (l @ r)"
  then obtain w1 w2 where w: "w = w1 @ w2" "w1 \<noteq> []" "w2 \<noteq> []" "prefix w2 (l @ r)"
    unfolding straddles_def by blast
  from w(1,2) have "tl w = tl w1 @ w2" by simp
  then have "suffix w2 (tl w)" by (simp add: suffix_def)
  from no_overlap_suffix[OF assms this w(3)] prefix_app_comparable[OF w(4)] show False by blast
qed

text \<open>
  A text that ends in a character outside \<open>l\<close>, and does not contain \<open>l\<close>, has no
  occurrence across a boundary that is followed by \<open>l\<close>.
\<close>

lemma straddles_clear_last:
  assumes "w \<noteq> []" "last w \<notin> set l" "\<not> sublist l w"
  shows "\<not> straddles w a (l @ r)"
proof
  assume "straddles w a (l @ r)"
  then obtain w1 w2 where w: "w = w1 @ w2" "w1 \<noteq> []" "w2 \<noteq> []" "prefix w2 (l @ r)"
    unfolding straddles_def by blast
  from w(4) consider "prefix w2 l" | "prefix l w2" by (auto simp: prefix_append)
  then show False
  proof cases
    case 1
    then have "set w2 \<subseteq> set l" by (auto simp: prefix_def)
    moreover have "last w \<in> set w2" using w(1,3) by simp
    ultimately show False using assms(2) by blast
  next
    case 2
    then have "sublist l w2" by simp
    then have "sublist l w" unfolding w(1) by (metis sublist_append)
    with assms(3) show False by blast
  qed
qed

lemma sublist_last_notin:
  assumes "sublist w (a @ b)" "w \<noteq> []" "last w \<notin> set b"
  shows "sublist w a"
proof -
  from sublist_app_cases[OF assms(1)] consider "sublist w a" | "sublist w b" | "straddles w a b" by blast
  then show ?thesis
  proof cases
    case 2
    then have "set w \<subseteq> set b" by (rule set_mono_sublist)
    with assms(2,3) show ?thesis by (metis last_in_set subsetD)
  next
    case 3
    then obtain w1 w2 where w: "w = w1 @ w2" "w2 \<noteq> []" "prefix w2 b"
      unfolding straddles_def by blast
    then have "last w \<in> set w2" "set w2 \<subseteq> set b" by (auto simp: prefix_def)
    with assms(3) show ?thesis by blast
  qed simp
qed

lemma sublist_hd_notin:
  assumes "sublist w (a @ b)" "w \<noteq> []" "hd w \<notin> set a"
  shows "sublist w b"
proof -
  from sublist_app_cases[OF assms(1)] consider "sublist w a" | "sublist w b" | "straddles w a b" by blast
  then show ?thesis
  proof cases
    case 1
    then have "set w \<subseteq> set a" by (rule set_mono_sublist)
    with assms(2,3) show ?thesis by (metis hd_in_set subsetD)
  next
    case 3
    then obtain w1 w2 where w: "w = w1 @ w2" "w1 \<noteq> []" "suffix w1 a"
      unfolding straddles_def by blast
    then have "hd w \<in> set w1" "set w1 \<subseteq> set a" by (auto simp: suffix_def)
    with assms(3) show ?thesis by blast
  qed simp
qed

lemma sublist_filter: "sublist w s \<Longrightarrow> sublist (filter p w) (filter p s)"
proof -
  assume "sublist w s"
  then obtain ps ss where "s = ps @ w @ ss" by (auto simp: sublist_def)
  then have "filter p s = filter p ps @ filter p w @ filter p ss" by simp
  then show ?thesis by (metis sublist_appendI)
qed

lemma sublist_trans: "sublist u v \<Longrightarrow> sublist v w \<Longrightarrow> sublist u w"
  by (rule sublist_order.order_trans)

lemma sublist_app_l: "sublist w a \<Longrightarrow> sublist w (a @ b)"
  by (metis sublist_append)

lemma sublist_app_r: "sublist w b \<Longrightarrow> sublist w (a @ b)"
  by (metis sublist_append)

lemma many1_SomeD:
  "many1 p s = Some (g, r) \<Longrightarrow> g \<noteq> [] \<and> (\<forall>c\<in>set g. p c) \<and> s = g @ r"
  by (auto simp: many1_def split: if_splits dest: set_takeWhileD)

lemma lit_SomeD: "lit w s = Some r \<Longrightarrow> s = w @ r"
  by (auto simp: lit_def prefix_def split: if_splits)

lemma first_match_SomeD:
  "first_match m s = Some x \<Longrightarrow> \<exists>k\<le>length s. m (drop k s) = Some x"
proof (induction s)
  case Nil
  then show ?case by simp
next
  case (Cons c s)
  show ?case
  proof (cases "m (c # s)")
    case None
    with Cons.prems have "first_match m s = Some x" by simp
    from Cons.IH[OF this] obtain k where "k \<le> length s" "m (drop k s) = Some x" by blast
    then have "Suc k \<le> length (c # s)" "m (drop (Suc k) (c # s)) = Some x" by simp_all
    then show ?thesis by blast
  next
    case (Some y)
    with Cons.prems have "m (drop 0 (c # s)) = Some x" by simp
    then show ?thesis by blast
  qed
qed

lemma first_match_SomeI:
  "m (drop k s) \<noteq> None \<Longrightarrow> k \<le> length s \<Longrightarrow> first_match m s \<noteq> None"
proof (induction s arbitrary: k)
  case Nil
  then show ?case by simp
next
  case (Cons c s)
  show ?case
  proof (cases k)
    case 0
    with Cons.prems show ?thesis by (auto split: option.splits)
  next
    case (Suc j)
    with Cons.prems have "m (drop j s) \<noteq> None" "j \<le> length s" by simp_all
    from Cons.IH[OF this] show ?thesis by (auto split: option.splits)
  qed
qed

lemma tmuxClass_ident: "tmuxClassMatch s = Some g \<Longrightarrow> ident_text g"
proof -
  assume "tmuxClassMatch s = Some g"
  then obtain k where "tmuxClass_at (drop k s) = Some g"
    unfolding tmuxClassMatch_def by (blast dest: first_match_SomeD)
  then show ?thesis
    by (auto simp: tmuxClass_at_def ident_text_def split: Option.bind_splits dest!: many1_SomeD)
qed

lemma cascade_word:
  "cascadeMatch s = Some (g2, g3, g4) \<Longrightarrow> word_text g2 \<and> word_text g3 \<and> word_text g4"
proof -
  assume "cascadeMatch s = Some (g2, g3, g4)"
  then obtain k where "cascade_at (drop k s) = Some (g2, g3, g4)"
    unfolding cascadeMatch_def by (blast dest: first_match_SomeD)
  then show ?thesis
    by (auto simp: cascade_at_def word_text_def split: Option.bind_splits dest!: many1_SomeD)
qed

lemma exec_word: "execMatch s = Some g \<Longrightarrow> word_text g"
proof -
  assume "execMatch s = Some g"
  then obtain k where "exec_at (drop k s) = Some g"
    unfolding execMatch_def by (blast dest: first_match_SomeD)
  then show ?thesis
    by (auto simp: exec_at_def word_text_def split: Option.bind_splits dest!: many1_SomeD)
qed

lemma iterm2_word: "iterm2Match s = Some g \<Longrightarrow> word_text g"
proof -
  assume "iterm2Match s = Some g"
  then obtain k where "iterm2_at (drop k s) = Some g"
    unfolding iterm2Match_def by (blast dest: first_match_SomeD)
  then show ?thesis
    by (auto simp: iterm2_at_def word_text_def split: Option.bind_splits dest!: many1_SomeD)
qed

lemma log_word: "logMatch s = Some g \<Longrightarrow> word_text g"
proof -
  assume "logMatch s = Some g"
  then obtain k where "log_at (drop k s) = Some g"
    unfolding logMatch_def by (blast dest: first_match_SomeD)
  then show ?thesis
    by (auto simp: log_at_def word_text_def split: Option.bind_splits dest!: many1_SomeD)
qed

lemma tmuxSync_word: "tmuxSyncMatch s = Some g \<Longrightarrow> word_text g"
proof -
  assume "tmuxSyncMatch s = Some g"
  then obtain k where "tmuxSync_at (drop k s) = Some g"
    unfolding tmuxSyncMatch_def by (blast dest: first_match_SomeD)
  then show ?thesis
    by (auto simp: tmuxSync_at_def word_text_def split: Option.bind_splits dest!: many1_SomeD)
qed

lemma extract_names_ok: "extractMinifiedNames s = Some n \<Longrightarrow> names_ok n"
proof -
  assume "extractMinifiedNames s = Some n"
  then obtain g1 g2 g3 g4 g5 g6 g7 g8 where
    m: "tmuxClassMatch s = Some g1" "cascadeMatch s = Some (g2, g3, g4)" "execMatch s = Some g5"
       "iterm2Match s = Some g6" "logMatch s = Some g7" "tmuxSyncMatch s = Some g8"
    and n: "n = \<lparr> tmuxBackendClass = g1, tmuxFactory = g2, iterm2Factory = g6,
               cachedBackendRef = g3, cachedResultVar = g4, execFn = g5, logFn = g7,
               isInsideTmuxSyncFn = g8 \<rparr>"
    by (auto simp: extractMinifiedNames_def split: Option.bind_splits)
  from m show ?thesis unfolding n names_ok_def
    using tmuxClass_ident cascade_word exec_word iterm2_word log_word tmuxSync_word by simp
qed

lemma word_text_notin: "word_text g \<Longrightarrow> \<not> is_word c \<Longrightarrow> c \<notin> set g"
  by (auto simp: word_text_def)

lemma word_text_filter: "word_text g \<Longrightarrow> filter (\<lambda>c. \<not> is_word c) g = []"
  by (auto simp: word_text_def filter_empty_conv)

lemma slice_take: "i \<le> length c \<Longrightarrow> slice c 0 (int i) = take i c"
  by (simp add: slice_def slice_index_def)

lemma slice_from_drop: "slice_from c (int i) = drop i c"
  by (simp add: slice_from_def slice_index_def min_def)

lemma slice_window: "k \<le> i \<Longrightarrow> i \<le> length c \<Longrightarrow> slice c (int k) (int i) = drop k (take i c)"
  by (simp add: slice_def slice_index_def drop_take)

lemma first_index_before:
  assumes "w \<noteq> []" "\<forall>j<length u. \<not> prefix w (drop j (u @ w @ v))"
  shows "\<not> sublist w (u @ butlast w)"
proof
  assume "sublist w (u @ butlast w)"
  then obtain ps ss where e: "u @ butlast w = ps @ w @ ss" by (auto simp: sublist_def)
  then have "length (u @ butlast w) = length (ps @ w @ ss)" by simp
  then have "length u + (length w - 1) = length ps + length w + length ss" by simp
  with assms(1) have lt: "length ps < length u" by (cases w) auto
  have "u @ w @ v = (u @ butlast w) @ last w # v" using assms(1) by simp
  also have "\<dots> = ps @ w @ (ss @ last w # v)" unfolding e by simp
  finally have eq: "u @ w @ v = ps @ w @ (ss @ last w # v)" .
  have "drop (length ps) (ps @ w @ (ss @ last w # v)) = w @ (ss @ last w # v)" by simp
  then have "prefix w (drop (length ps) (u @ w @ v))" unfolding eq[symmetric] by (simp add: prefix_def)
  with assms(2) lt show False by blast
qed

lemma first_index_sublist_form:
  assumes "w \<noteq> []" "first_index w c = Some i"
  shows "\<exists>u v. c = u @ w @ v \<and> length u = i \<and> \<not> sublist w (u @ butlast w)"
proof -
  from first_index_decomp[OF assms(2)] obtain u v where
    c: "c = u @ w @ v" and l: "length u = i" and f: "\<forall>j<i. \<not> prefix w (drop j c)" by blast
  from f have "\<forall>j<length u. \<not> prefix w (drop j (u @ w @ v))" unfolding c l .
  from first_index_before[OF assms(1) this] c l show ?thesis by blast
qed

lemma sublist_prefix_drop: "prefix w (drop j s) \<Longrightarrow> sublist w s"
  by (metis append_take_drop_id prefix_def sublist_appendI)

lemma first_index_intro:
  assumes "w \<noteq> []" "\<not> sublist w (u @ butlast w)"
  shows "first_index w (u @ w @ v) = Some (length u)"
proof (rule first_index_SomeI)
  show "length u \<le> length (u @ w @ v)" by simp
  show "prefix w (drop (length u) (u @ w @ v))" by simp
  show "\<forall>j<length u. \<not> prefix w (drop j (u @ w @ v))"
  proof (intro allI impI notI)
    fix j assume j: "j < length u" and p: "prefix w (drop j (u @ w @ v))"
    have d: "drop j (u @ w @ v) = (drop j u @ butlast w) @ last w # v"
      using j assms(1) by simp
    have "length w \<le> length (drop j u @ butlast w)" using j assms(1) by (cases w) auto
    with p have "prefix w (drop j u @ butlast w)" unfolding d by (rule prefix_app_short)
    moreover have "drop j (u @ butlast w) = drop j u @ butlast w" using j by simp
    ultimately have "prefix w (drop j (u @ butlast w))" by simp
    then have "sublist w (u @ butlast w)" by (rule sublist_prefix_drop)
    with assms(2) show False by blast
  qed
qed

lemma includes_decomp:
  assumes "str_includes c w" "w \<noteq> []"
  shows "\<exists>u v. c = u @ w @ v \<and> indexOf c w = int (length u) \<and> first_index w c = Some (length u)
           \<and> \<not> sublist w (u @ butlast w)"
proof -
  from assms(1) obtain i where i: "first_index w c = Some i"
    by (auto simp: str_includes_first_index)
  from first_index_sublist_form[OF assms(2) i] i show ?thesis
    by (auto simp: indexOf_def)
qed

lemma replace_decomp:
  assumes "str_includes c w" "w \<noteq> []" "36 \<notin> set r"
  shows "\<exists>u v. c = u @ w @ v \<and> str_replace c w r = u @ r @ v"
proof -
  from assms(1) obtain i where i: "first_index w c = Some i"
    by (auto simp: str_includes_first_index)
  from str_replace_decomp[OF i assms(3)] show ?thesis by blast
qed

lemma tmuxBackendAnchor_nonempty: "tmuxBackendAnchor n \<noteq> []"
  by (simp add: tmuxBackendAnchor_def js_def)

lemma patch1_decomp:
  assumes "str_includes (code st) (tmuxBackendAnchor n)"
  shows "\<exists>a b. code st = a @ tmuxBackendAnchor n @ b
           \<and> code (patch1 n st) = a @ injected n @ tmuxBackendAnchor n @ b"
proof -
  from includes_decomp[OF assms tmuxBackendAnchor_nonempty] obtain u v where
    c: "code st = u @ tmuxBackendAnchor n @ v" and i: "indexOf (code st) (tmuxBackendAnchor n) = int (length u)"
    by blast
  have l: "length u \<le> length (code st)" unfolding c by simp
  have "code (patch1 n st) = take (length u) (code st) @ injected n @ drop (length u) (code st)"
    using assms by (simp add: patch1_def i slice_take[OF l] slice_from_drop injected_def)
  also have "\<dots> = u @ injected n @ tmuxBackendAnchor n @ v" unfolding c by simp
  finally show ?thesis using c by blast
qed

text \<open>The names put into a replacement text carry no \<open>$\<close>, so \<open>replace\<close> inserts it as it is.\<close>

lemma not_word_chars:
  "\<not> is_word 36" "\<not> is_word 32" "\<not> is_word 41" "\<not> is_word 10" "\<not> is_word 96"
  by (simp_all add: is_word_def)

lemma word_text_set: "word_text g \<Longrightarrow> c \<in> set g \<Longrightarrow> is_word c"
  by (simp add: word_text_def)

lemma zellijFallback_no_dollar: "names_ok n \<Longrightarrow> 36 \<notin> set (zellijFallback n @ errorAnchor)"
  by (auto simp: zellijFallback_def errorAnchor_def names_ok_def js_def
           dest: word_text_set simp: is_word_def)

lemma backendByType_no_dollar:
  \<open>names_ok n \<Longrightarrow> 36 \<notin> set (backendByTypeAnchor n @ js '';case"zellij":return createZellijBackend()'')\<close>
  by (auto simp: backendByTypeAnchor_def names_ok_def js_def
           dest: word_text_set simp: is_word_def)

lemma inProcess_no_dollar:
  "names_ok n \<Longrightarrow> 36 \<notin> set (js ''else q=!'' @ isInsideTmuxSyncFn n @ js ''()&&!isInsideZellijSync()'')"
  by (auto simp: names_ok_def js_def dest: word_text_set simp: is_word_def)

lemma patch3_decomp:
  assumes "str_includes (code st) errorAnchor" "names_ok n"
  shows "\<exists>a b. code st = a @ errorAnchor @ b
           \<and> code (patch3 n st) = a @ zellijFallback n @ errorAnchor @ b"
proof -
  have ne: "errorAnchor \<noteq> []" by (simp add: errorAnchor_def js_def)
  from replace_decomp[OF assms(1) ne zellijFallback_no_dollar[OF assms(2)]] assms(1)
  show ?thesis by (auto simp: patch3_def)
qed

lemma patch4_decomp:
  assumes "str_includes (code st) (backendByTypeAnchor n)" "names_ok n"
  shows \<open>\<exists>a b. code st = a @ backendByTypeAnchor n @ b
           \<and> code (patch4 n st) =
               a @ backendByTypeAnchor n @ js '';case"zellij":return createZellijBackend()'' @ b\<close>
proof -
  have ne: "backendByTypeAnchor n \<noteq> []" by (simp add: backendByTypeAnchor_def js_def)
  from replace_decomp[OF assms(1) ne backendByType_no_dollar[OF assms(2)]] assms(1)
  show ?thesis by (auto simp: patch4_def)
qed

lemma patch6_decomp:
  assumes "str_includes (code st) (inProcessAnchor n)" "names_ok n"
  shows "\<exists>a b. code st = a @ inProcessAnchor n @ b
           \<and> code (patch6 n st) = a @ inProcessAnchor n @ js ''&&!isInsideZellijSync()'' @ b"
proof -
  have ne: "inProcessAnchor n \<noteq> []" by (simp add: inProcessAnchor_def js_def)
  have e: "js ''else q=!'' @ isInsideTmuxSyncFn n @ js ''()&&!isInsideZellijSync()''
           = inProcessAnchor n @ js ''&&!isInsideZellijSync()''"
    by (simp add: inProcessAnchor_def js_def)
  from replace_decomp[OF assms(1) ne inProcess_no_dollar[OF assms(2)]] assms(1)
  show ?thesis by (auto simp: patch6_def e)
qed

lemma letK_at_SomeD: "letK_at m = Some x \<Longrightarrow> x = m \<and> letK_text m"
proof -
  assume a: "letK_at m = Some x"
  then obtain s1 sp s2 w1 s3 s4 w2 s5 s6 where
    1: "lit (js ''let K=await'') m = Some s1" and 2: "many1 is_space s1 = Some (sp, s2)"
    and 3: "many1 is_word s2 = Some (w1, s3)" and 4: "lit (js ''();if('') s3 = Some s4"
    and 5: "many1 is_word s4 = Some (w2, s5)" and 6: "lit (js ''(`'') s5 = Some s6"
    and 7: "s6 = []" and x: "x = m"
    by (auto simp: letK_at_def split: Option.bind_splits if_splits)
  from lit_SomeD[OF 1] many1_SomeD[OF 2] many1_SomeD[OF 3] lit_SomeD[OF 4] many1_SomeD[OF 5]
    lit_SomeD[OF 6] 7
  have "m = js ''let K=await'' @ sp @ w1 @ js ''();if('' @ w2 @ js ''(`''"
    and "space_text sp" "word_text w1" "word_text w2"
    by (simp_all add: space_text_def word_text_def)
  with x show ?thesis unfolding letK_text_def by blast
qed

lemma letK_text_prefix: "letK_text m \<Longrightarrow> prefix (js ''let K=await'') m"
  by (auto simp: letK_text_def)

lemma letK_text_nonempty: "letK_text m \<Longrightarrow> m \<noteq> []"
  by (auto simp: letK_text_def js_def)

lemma letKMatch_SomeD:
  assumes "letKMatch pre = Some m"
  shows "suffix m pre \<and> letK_at m = Some m \<and> letK_text m"
proof -
  from assms obtain k where k: "k \<le> length pre" "letK_at (drop k pre) = Some m"
    unfolding letKMatch_def by (blast dest: first_match_SomeD)
  from letK_at_SomeD[OF k(2)] have m: "m = drop k pre" "letK_text m" by simp_all
  then have "suffix m pre" by (simp add: suffix_drop)
  with m k(2) show ?thesis by simp
qed

lemma letKMatch_SomeI:
  assumes "suffix m pre" "letK_at m \<noteq> None"
  shows "letKMatch pre \<noteq> None"
proof -
  from assms(1) obtain p where p: "pre = p @ m" by (auto simp: suffix_def)
  then have "drop (length p) pre = m" "length p \<le> length pre" by simp_all
  with assms(2) show ?thesis unfolding letKMatch_def
    by (intro first_match_SomeI[where k="length p"]) simp_all
qed

lemma last_index_short: "length s < length m \<Longrightarrow> last_index m s = None"
proof (induction s)
  case Nil
  then show ?case by auto
next
  case (Cons c s)
  then have "last_index m s = None" by simp
  moreover have "\<not> prefix m (c # s)" using Cons.prems by (auto dest: prefix_length_le)
  ultimately show ?case by simp
qed

lemma last_index_suffix:
  "suffix m p \<Longrightarrow> m \<noteq> [] \<Longrightarrow> last_index m p = Some (length p - length m)"
proof (induction p)
  case Nil
  then show ?case by simp
next
  case (Cons c s)
  from Cons.prems(1) consider "m = c # s" | "suffix m s" by (auto simp: suffix_Cons)
  then show ?case
  proof cases
    case 1
    then have "last_index m s = None" by (intro last_index_short) simp
    with 1 show ?thesis by simp
  next
    case 2
    from Cons.IH[OF 2 Cons.prems(2)] have "last_index m s = Some (length s - length m)" .
    moreover from 2 have "length m \<le> length s" by (rule suffix_length_le)
    ultimately show ?thesis by (simp add: Suc_diff_le)
  qed
qed

lemma cascadeAnchor_nonempty: "cascadeAnchor \<noteq> []"
  by (simp add: cascadeAnchor_def js_def)

lemma cascadeWindow_eq:
  assumes "indexOf c cascadeAnchor = int (length u)" "c = u @ cascadeAnchor @ v"
  shows "cascadeWindow c = drop (length u - 200) u"
proof -
  have m: "max 0 (int (length u) - 200) = int (length u - 200)" by simp
  have "cascadeWindow c = slice c (int (length u - 200)) (int (length u))"
    unfolding cascadeWindow_def assms(1) m ..
  also have "\<dots> = drop (length u - 200) (take (length u) c)"
    by (rule slice_window) (simp_all add: assms(2))
  finally show ?thesis by (simp add: assms(2))
qed

text \<open>
  The anchor of PATCH 2 is found when the text is \<open>u @ m @ cascadeAnchor @ v\<close> with no
  earlier occurrence of the anchor and with \<open>m\<close>, of at most 200 code units, matched by
  the statement-start expression.
\<close>

lemma cascadeFound_decomp:
  assumes "cascadeFound c"
  shows "\<exists>u m v. c = u @ m @ cascadeAnchor @ v
           \<and> \<not> sublist cascadeAnchor (u @ m @ butlast cascadeAnchor)
           \<and> length m \<le> 200 \<and> letK_at m = Some m \<and> letK_text m"
proof -
  from assms have inc: "str_includes c cascadeAnchor"
    and lk: "letKMatch (cascadeWindow c) \<noteq> None" by (simp_all add: cascadeFound_def)
  from includes_decomp[OF inc cascadeAnchor_nonempty] obtain u0 v where
    c: "c = u0 @ cascadeAnchor @ v" and i: "indexOf c cascadeAnchor = int (length u0)"
    and first: "\<not> sublist cascadeAnchor (u0 @ butlast cascadeAnchor)" by blast
  from lk obtain m where "letKMatch (cascadeWindow c) = Some m" by blast
  from letKMatch_SomeD[OF this] have sf: "suffix m (drop (length u0 - 200) u0)"
    and m: "letK_at m = Some m" "letK_text m" unfolding cascadeWindow_eq[OF i c] by simp_all
  from sf have "length m \<le> length (drop (length u0 - 200) u0)" by (rule suffix_length_le)
  then have len: "length m \<le> 200" by simp
  from sf have "suffix m u0" by (meson suffix_drop suffix_order.order_trans)
  then obtain u where u: "u0 = u @ m" by (auto simp: suffix_def)
  from c first len m show ?thesis unfolding u by auto
qed

lemma cascadeFound_intro:
  assumes "c = u @ m @ cascadeAnchor @ v"
    and "\<not> sublist cascadeAnchor (u @ m @ butlast cascadeAnchor)"
    and "length m \<le> 200" "letK_at m \<noteq> None"
  shows "cascadeFound c"
proof -
  have c: "c = (u @ m) @ cascadeAnchor @ v" using assms(1) by simp
  have first: "\<not> sublist cascadeAnchor ((u @ m) @ butlast cascadeAnchor)" using assms(2) by simp
  have fi: "first_index cascadeAnchor c = Some (length (u @ m))"
    unfolding c by (rule first_index_intro[OF cascadeAnchor_nonempty first])
  then have inc: "str_includes c cascadeAnchor" by (simp add: str_includes_first_index)
  from fi have i: "indexOf c cascadeAnchor = int (length (u @ m))" by (simp add: indexOf_def)
  have "length (u @ m) - 200 \<le> length u" using assms(3) by simp
  then have "drop (length (u @ m) - 200) (u @ m) = drop (length (u @ m) - 200) u @ m" by simp
  then have "suffix m (drop (length (u @ m) - 200) (u @ m))" by (simp add: suffix_def)
  then have "letKMatch (cascadeWindow c) \<noteq> None"
    unfolding cascadeWindow_eq[OF i c] using assms(4) by (rule letKMatch_SomeI)
  with inc show ?thesis by (simp add: cascadeFound_def)
qed

lemma patch2_decomp:
  assumes "cascadeFound (code st)"
  shows "\<exists>a b. code st = a @ b \<and> prefix (js ''let K=await'') b
           \<and> code (patch2 n st) = a @ zellijCheck n @ b"
proof -
  define c where "c = code st"
  from assms have inc: "str_includes c cascadeAnchor"
    and lk: "letKMatch (cascadeWindow c) \<noteq> None" by (simp_all add: cascadeFound_def c_def)
  from includes_decomp[OF inc cascadeAnchor_nonempty] obtain u0 v where
    c: "c = u0 @ cascadeAnchor @ v" and i: "indexOf c cascadeAnchor = int (length u0)" by blast
  define pre where "pre = drop (length u0 - 200) u0"
  have w: "cascadeWindow c = pre" unfolding pre_def by (rule cascadeWindow_eq[OF i c])
  from lk obtain m where m: "letKMatch pre = Some m" unfolding w by blast
  from letKMatch_SomeD[OF m] have sf: "suffix m pre" and mt: "letK_text m" by simp_all
  from last_index_suffix[OF sf letK_text_nonempty[OF mt]]
  have li: "lastIndexOf pre m = int (length pre - length m)" by (simp add: lastIndexOf_def)
  define K where "K = (length u0 - 200) + (length pre - length m)"
  from sf have lm: "length m \<le> length pre" by (rule suffix_length_le)
  have lp: "length pre = length u0 - (length u0 - 200)" by (simp add: pre_def)
  have K: "K + length m = length u0" using lm lp unfolding K_def by linarith
  from sf have "suffix m u0" unfolding pre_def by (meson suffix_drop suffix_order.order_trans)
  then obtain a where u0: "u0 = a @ m" by (auto simp: suffix_def)
  have la: "length a = K" using K unfolding u0 by simp
  have F: "max 0 (indexOf c cascadeAnchor - 200) + lastIndexOf pre m = int K"
    unfolding i li K_def by simp
  have Kc: "K \<le> length c" unfolding c using K by simp
  have pre': "slice c (max 0 (indexOf c cascadeAnchor - 200)) (indexOf c cascadeAnchor) = pre"
    using w by (simp add: cascadeWindow_def)
  have "code (patch2 n st) = slice c 0 (int K) @ zellijCheck n @ slice_from c (int K)"
    using inc m F by (simp add: patch2_def c_def[symmetric] Let_def pre')
  also have "\<dots> = take K c @ zellijCheck n @ drop K c"
    by (simp add: slice_take[OF Kc] slice_from_drop)
  also have "\<dots> = a @ zellijCheck n @ (m @ cascadeAnchor @ v)"
    unfolding c u0 using la by simp
  finally have r: "code (patch2 n st) = a @ zellijCheck n @ (m @ cascadeAnchor @ v)" .
  have "code st = a @ (m @ cascadeAnchor @ v)" unfolding c_def[symmetric] c u0 by simp
  moreover have "prefix (js ''let K=await'') (m @ cascadeAnchor @ v)"
    using letK_text_prefix[OF mt] by (rule prefix_prefix)
  ultimately show ?thesis using r by blast
qed

lemma replaceMessage_outcome:
  assumes "loop_pair (fst fr) (snd fr)"
  shows "\<exists>st'. replaceMessage fr st = Some st' \<and> message_outcome fr st st'"
proof (cases "str_includes (code st) (fst fr)")
  case True
  from replace_while_terminates[OF assms] obtain y where
    y: "replace_while (fst fr) (snd fr) (code st) = Some y" by blast
  with True show ?thesis
    by (cases fr) (simp add: replaceMessage_def message_outcome_def)
next
  case False
  then show ?thesis
    by (cases fr) (simp add: replaceMessage_def message_outcome_def)
qed

lemma patch5_outcome:
  "\<exists>st' st''. patch5 st = Some st''
      \<and> message_outcome (errorMsgReplacements ! 0) st st'
      \<and> message_outcome (errorMsgReplacements ! 1) st' st''"
proof -
  from replaceMessage_outcome[OF loop_pair_1, of st] obtain st' where
    1: "replaceMessage (errorMsgReplacements ! 0) st = Some st'"
       "message_outcome (errorMsgReplacements ! 0) st st'" by blast
  from replaceMessage_outcome[OF loop_pair_2, of st'] obtain st'' where
    2: "replaceMessage (errorMsgReplacements ! 1) st' = Some st''"
       "message_outcome (errorMsgReplacements ! 1) st' st''" by blast
  have "errorMsgReplacements = [errorMsgReplacements ! 0, errorMsgReplacements ! 1]"
    by (simp add: errorMsgReplacements_def)
  then have "patch5 st = replaceMessages [errorMsgReplacements ! 0, errorMsgReplacements ! 1] st"
    unfolding patch5_def by simp
  with 1 2 have "patch5 st = Some st''" by simp
  with 1 2 show ?thesis by blast
qed

lemma patch1_outcome:
  "edit_outcome (str_includes (code st) (tmuxBackendAnchor n)) patch1Applied patch1Failed
     st (patch1 n st)"
  by (simp add: edit_outcome_def patch1_def Let_def)

lemma patch2_outcome:
  "edit_outcome (cascadeFound (code st)) patch2Applied
     (if str_includes (code st) cascadeAnchor then patch2FailedStart else patch2FailedAnchor)
     st (patch2 n st)"
  by (simp add: edit_outcome_def patch2_def Let_def cascadeFound_def cascadeWindow_def
           split: option.splits)

lemma patch3_outcome:
  "edit_outcome (str_includes (code st) errorAnchor) patch3Applied patch3Failed st (patch3 n st)"
  by (simp add: edit_outcome_def patch3_def)

lemma patch4_outcome:
  "edit_outcome (str_includes (code st) (backendByTypeAnchor n)) patch4Applied patch4Failed
     st (patch4 n st)"
  by (simp add: edit_outcome_def patch4_def)

lemma patch6_outcome:
  "edit_outcome (str_includes (code st) (inProcessAnchor n)) patch6Applied patch6Failed
     st (patch6 n st)"
  by (simp add: edit_outcome_def patch6_def)

text \<open>
  C7. For every input that reaches the edit phase, the report of \<open>patchCliSource\<close> is the
  report of the state reached by taking all six steps in order, each on the state the step
  before it returned, whatever failed before. A structural edit whose anchor check fails
  returns the state it was given (the working text included) with its failure label added
  to \<open>failed\<close>, so the next edit runs on a text that holds the successful edits only; a
  message whose literal is absent leaves the text as it was and adds a warning, and the
  message step adds nothing to \<open>failed\<close>.
\<close>

theorem failed_edit_leaves_text:
  assumes "looksLikeCli s" "\<not> isPatched s" "extractMinifiedNames s = Some n"
  shows "\<exists>st1 st2 st3 st4 st4' st5 st6.
      st1 = patch1 n (initial s)
    \<and> edit_outcome (str_includes s (tmuxBackendAnchor n)) patch1Applied patch1Failed
         (initial s) st1
    \<and> st2 = patch2 n st1
    \<and> edit_outcome (cascadeFound (code st1)) patch2Applied
         (if str_includes (code st1) cascadeAnchor then patch2FailedStart else patch2FailedAnchor)
         st1 st2
    \<and> st3 = patch3 n st2
    \<and> edit_outcome (str_includes (code st2) errorAnchor) patch3Applied patch3Failed st2 st3
    \<and> st4 = patch4 n st3
    \<and> edit_outcome (str_includes (code st3) (backendByTypeAnchor n)) patch4Applied patch4Failed
         st3 st4
    \<and> patch5 st4 = Some st5
    \<and> message_outcome (errorMsgReplacements ! 0) st4 st4'
    \<and> message_outcome (errorMsgReplacements ! 1) st4' st5
    \<and> st6 = patch6 n st5
    \<and> edit_outcome (str_includes (code st5) (inProcessAnchor n)) patch6Applied patch6Failed
         st5 st6
    \<and> patchCliSource s = Some (report st6)
    \<and> failedPatches (report st6) = failed st6
    \<and> appliedPatches (report st6) = applied st6
    \<and> warnings (report st6) = warnings' st6"
proof -
  define st1 where "st1 = patch1 n (initial s)"
  define st2 where "st2 = patch2 n st1"
  define st3 where "st3 = patch3 n st2"
  define st4 where "st4 = patch4 n st3"
  from patch5_outcome[of st4] obtain st4' st5 where
    5: "patch5 st4 = Some st5" "message_outcome (errorMsgReplacements ! 0) st4 st4'"
       "message_outcome (errorMsgReplacements ! 1) st4' st5" by blast
  define st6 where "st6 = patch6 n st5"
  have o1: "edit_outcome (str_includes s (tmuxBackendAnchor n)) patch1Applied patch1Failed
         (initial s) st1"
    using patch1_outcome[of "initial s" n] by (simp add: st1_def initial_def)
  have o2: "edit_outcome (cascadeFound (code st1)) patch2Applied
         (if str_includes (code st1) cascadeAnchor then patch2FailedStart else patch2FailedAnchor)
         st1 st2" unfolding st2_def by (rule patch2_outcome)
  have o3: "edit_outcome (str_includes (code st2) errorAnchor) patch3Applied patch3Failed st2 st3"
    unfolding st3_def by (rule patch3_outcome)
  have o4: "edit_outcome (str_includes (code st3) (backendByTypeAnchor n)) patch4Applied patch4Failed
         st3 st4" unfolding st4_def by (rule patch4_outcome)
  have o6: "edit_outcome (str_includes (code st5) (inProcessAnchor n)) patch6Applied patch6Failed
         st5 st6" unfolding st6_def by (rule patch6_outcome)
  have "run_edits n s = Some st6"
    using 5(1) by (simp add: run_edits_def st6_def st4_def st3_def st2_def st1_def initial_def)
  then have p: "patchCliSource s = Some (report st6)"
    using assms by (simp add: patchCliSource_def patchCliSourceWith_def)
  have r: "failedPatches (report st6) = failed st6" "appliedPatches (report st6) = applied st6"
    "warnings (report st6) = warnings' st6" by (simp_all add: report_def)
  from st1_def o1 st2_def o2 st3_def o3 st4_def o4 5 st6_def o6 p r show ?thesis by blast
qed

lemma find_literals:
  "fst (errorMsgReplacements ! 0) = js ''To use agent swarms, install tmux:''"
  "fst (errorMsgReplacements ! 1)
     = js ''To use agent swarms, install tmux using your system'' @ [39] @ js ''s package manager.''"
  by (simp_all add: errorMsgReplacements_def)

lemmas anchor_eval =
  tmuxBackendAnchor_def cascadeAnchor_def errorAnchor_def backendByTypeAnchor_def
  inProcessAnchor_def sampleNames_def find_literals MinifiedNames.select_convs

lemma failing_guards: "looksLikeCli failingCli" "\<not> isPatched failingCli"
  unfolding failingCli_def by (simp_all only: eval_rules)

lemma failing_matches:
  "tmuxClassMatch failingCli = Some (js ''LTA'')"
  "cascadeMatch failingCli = Some (js ''EM6'', js ''qW1'', js ''ER'')"
  "execMatch failingCli = Some (js ''CA'')"
  "iterm2Match failingCli = Some (js ''CI4'')"
  "logMatch failingCli = Some (js ''h'')"
  "tmuxSyncMatch failingCli = Some (js ''Fq'')"
  unfolding failingCli_def by (simp_all only: eval_rules)

lemma failing_names: "extractMinifiedNames failingCli = Some sampleNames"
  by (simp add: extractMinifiedNames_def failing_matches sampleNames_def)

lemma failing_anchors:
  "\<not> str_includes failingCli (tmuxBackendAnchor sampleNames)"
  "\<not> str_includes failingCli cascadeAnchor"
  "\<not> str_includes failingCli errorAnchor"
  "\<not> str_includes failingCli (backendByTypeAnchor sampleNames)"
  "\<not> str_includes failingCli (inProcessAnchor sampleNames)"
  "\<not> str_includes failingCli (fst (errorMsgReplacements ! 0))"
  "\<not> str_includes failingCli (fst (errorMsgReplacements ! 1))"
  unfolding failingCli_def anchor_eval by (simp_all only: eval_rules)

lemma start_guards: "looksLikeCli failingStart" "\<not> isPatched failingStart"
  unfolding failingStart_def cascadeAnchor_def failingCli_def by (simp_all only: eval_rules)

lemma start_matches:
  "tmuxClassMatch failingStart = Some (js ''LTA'')"
  "cascadeMatch failingStart = Some (js ''EM6'', js ''qW1'', js ''ER'')"
  "execMatch failingStart = Some (js ''CA'')"
  "iterm2Match failingStart = Some (js ''CI4'')"
  "logMatch failingStart = Some (js ''h'')"
  "tmuxSyncMatch failingStart = Some (js ''Fq'')"
  unfolding failingStart_def cascadeAnchor_def failingCli_def by (simp_all only: eval_rules)

lemma start_names: "extractMinifiedNames failingStart = Some sampleNames"
  by (simp add: extractMinifiedNames_def start_matches sampleNames_def)

lemma start_anchors:
  "\<not> str_includes failingStart (tmuxBackendAnchor sampleNames)"
  "\<not> str_includes failingStart errorAnchor"
  "\<not> str_includes failingStart (backendByTypeAnchor sampleNames)"
  "\<not> str_includes failingStart (inProcessAnchor sampleNames)"
  "\<not> str_includes failingStart (fst (errorMsgReplacements ! 0))"
  "\<not> str_includes failingStart (fst (errorMsgReplacements ! 1))"
  unfolding failingStart_def failingCli_def anchor_eval by (simp_all only: eval_rules)

lemma first_index_prefix: "prefix w s \<Longrightarrow> first_index w s = Some 0"
  by (cases s) simp_all

lemma start_cascade:
  "str_includes failingStart cascadeAnchor" "\<not> cascadeFound failingStart"
proof -
  have f: "first_index cascadeAnchor failingStart = Some 0"
    unfolding failingStart_def by (rule first_index_prefix) simp
  then show "str_includes failingStart cascadeAnchor" by (simp add: str_includes_first_index)
  from f have "cascadeWindow failingStart = []"
    by (simp add: cascadeWindow_def indexOf_def slice_def slice_index_def)
  then have "letKMatch (cascadeWindow failingStart) = None"
    by (simp add: letKMatch_def letK_at_def lit_def js_def)
  then show "\<not> cascadeFound failingStart" by (simp add: cascadeFound_def)
qed

theorem failed_edit_leaves_text_witness:
  "looksLikeCli failingCli \<and> \<not> isPatched failingCli
   \<and> extractMinifiedNames failingCli = Some sampleNames
   \<and> \<not> str_includes failingCli (tmuxBackendAnchor sampleNames)
   \<and> \<not> str_includes failingCli cascadeAnchor
   \<and> \<not> str_includes failingCli errorAnchor
   \<and> \<not> str_includes failingCli (backendByTypeAnchor sampleNames)
   \<and> \<not> str_includes failingCli (inProcessAnchor sampleNames)
   \<and> patchCliSource failingCli = Some
         \<lparr> success = False, patchedSource = None, appliedPatches = [],
           failedPatches = [patch1Failed, patch2FailedAnchor, patch3Failed, patch4Failed,
                            patch6Failed],
           warnings = [warningMessage find1, warningMessage find2] \<rparr>
   \<and> looksLikeCli failingStart \<and> \<not> isPatched failingStart
   \<and> extractMinifiedNames failingStart = Some sampleNames
   \<and> str_includes failingStart cascadeAnchor \<and> \<not> cascadeFound failingStart
   \<and> patchCliSource failingStart = Some
         \<lparr> success = False, patchedSource = None, appliedPatches = [],
           failedPatches = [patch1Failed, patch2FailedStart, patch3Failed, patch4Failed,
                            patch6Failed],
           warnings = [warningMessage find1, warningMessage find2] \<rparr>"
proof -
  have run: "patchCliSource c = Some
         \<lparr> success = False, patchedSource = None, appliedPatches = [],
           failedPatches = [patch1Failed, f2, patch3Failed, patch4Failed, patch6Failed],
           warnings = [warningMessage find1, warningMessage find2] \<rparr>"
    if g: "looksLikeCli c" "\<not> isPatched c" "extractMinifiedNames c = Some sampleNames"
      and a: "\<not> str_includes c (tmuxBackendAnchor sampleNames)" "\<not> cascadeFound c"
        "\<not> str_includes c errorAnchor" "\<not> str_includes c (backendByTypeAnchor sampleNames)"
        "\<not> str_includes c (inProcessAnchor sampleNames)"
        "\<not> str_includes c (fst (errorMsgReplacements ! 0))"
        "\<not> str_includes c (fst (errorMsgReplacements ! 1))"
      and f2: "f2 = (if str_includes c cascadeAnchor then patch2FailedStart else patch2FailedAnchor)"
    for c f2
  proof -
    from failed_edit_leaves_text [OF g]
    obtain st1 st2 st3 st4 st4' st5 st6 where
      o1: "edit_outcome (str_includes c (tmuxBackendAnchor sampleNames)) patch1Applied
             patch1Failed (initial c) st1"
      and o2: "edit_outcome (cascadeFound (code st1)) patch2Applied
           (if str_includes (code st1) cascadeAnchor then patch2FailedStart else patch2FailedAnchor)
           st1 st2"
      and o3: "edit_outcome (str_includes (code st2) errorAnchor) patch3Applied patch3Failed st2 st3"
      and o4: "edit_outcome (str_includes (code st3) (backendByTypeAnchor sampleNames))
           patch4Applied patch4Failed st3 st4"
      and m1: "message_outcome (errorMsgReplacements ! 0) st4 st4'"
      and m2: "message_outcome (errorMsgReplacements ! 1) st4' st5"
      and o6: "edit_outcome (str_includes (code st5) (inProcessAnchor sampleNames)) patch6Applied
           patch6Failed st5 st6"
      and p: "patchCliSource c = Some (report st6)" by blast
    have e1: "st1 = \<lparr> code = c, applied = [], failed = [patch1Failed], warnings' = [] \<rparr>"
      using o1 a(1) by (simp add: edit_outcome_def initial_def)
    have e2: "st2 = \<lparr> code = c, applied = [], failed = [patch1Failed, f2], warnings' = [] \<rparr>"
      using o2 a(2) unfolding e1 f2 by (simp add: edit_outcome_def)
    have e3: "st3 = \<lparr> code = c, applied = [], failed = [patch1Failed, f2, patch3Failed],
                      warnings' = [] \<rparr>"
      using o3 a(3) unfolding e2 by (simp add: edit_outcome_def)
    have e4: "st4 = \<lparr> code = c, applied = [],
                      failed = [patch1Failed, f2, patch3Failed, patch4Failed], warnings' = [] \<rparr>"
      using o4 a(4) unfolding e3 by (simp add: edit_outcome_def)
    have e4m: "st4' = \<lparr> code = c, applied = [],
                      failed = [patch1Failed, f2, patch3Failed, patch4Failed],
                      warnings' = [warningMessage find1] \<rparr>"
      using m1 a(6) unfolding e4 by (simp add: message_outcome_def)
    have e5: "st5 = \<lparr> code = c, applied = [],
                      failed = [patch1Failed, f2, patch3Failed, patch4Failed],
                      warnings' = [warningMessage find1, warningMessage find2] \<rparr>"
      using m2 a(7) unfolding e4m by (simp add: message_outcome_def)
    have e6: "st6 = \<lparr> code = c, applied = [],
                      failed = [patch1Failed, f2, patch3Failed, patch4Failed, patch6Failed],
                      warnings' = [warningMessage find1, warningMessage find2] \<rparr>"
      using o6 a(5) unfolding e5 by (simp add: edit_outcome_def)
    show ?thesis unfolding p e6 by (simp add: report_def)
  qed
  note a = failing_anchors
  have nc: "\<not> cascadeFound failingCli" using a(2) by (simp add: cascadeFound_def)
  note b = start_anchors
  from run [OF failing_guards failing_names a(1) nc a(3,4,5,6,7)] a(2)
  have r1: "patchCliSource failingCli = Some
         \<lparr> success = False, patchedSource = None, appliedPatches = [],
           failedPatches = [patch1Failed, patch2FailedAnchor, patch3Failed, patch4Failed,
                            patch6Failed],
           warnings = [warningMessage find1, warningMessage find2] \<rparr>" by simp
  from run [OF start_guards start_names b(1) start_cascade(2) b(2,3,4,5,6)] start_cascade(1)
  have r2: "patchCliSource failingStart = Some
         \<lparr> success = False, patchedSource = None, appliedPatches = [],
           failedPatches = [patch1Failed, patch2FailedStart, patch3Failed, patch4Failed,
                            patch6Failed],
           warnings = [warningMessage find1, warningMessage find2] \<rparr>" by simp
  from r1 r2 failing_guards failing_names a start_guards start_names start_cascade
  show ?thesis by simp
qed

section \<open>Texts that survive an edit\<close>

lemma keep_before_fixed:
  assumes "sublist w (a @ b)" "prefix l b" "no_overlap (tl w) l"
  shows "sublist w (a @ ins @ b)"
proof -
  from assms(2) obtain r where b: "b = l @ r" by (auto simp: prefix_def)
  from straddles_clear[OF assms(3)] have "\<not> straddles w a b" unfolding b .
  with assms(1) show ?thesis by (rule sublist_insert)
qed

lemma keep_before_last:
  assumes "sublist w (a @ b)" "prefix l b" "w \<noteq> []" "last w \<notin> set l" "\<not> sublist l w"
  shows "sublist w (a @ ins @ b)"
proof -
  from assms(2) obtain r where b: "b = l @ r" by (auto simp: prefix_def)
  from straddles_clear_last[OF assms(3-5)] have "\<not> straddles w a b" unfolding b .
  with assms(1) show ?thesis by (rule sublist_insert)
qed

lemma keep_after:
  assumes "sublist w (a @ b)" "a \<noteq> []" "last a \<notin> set (butlast w)"
  shows "sublist w (a @ ins @ b)"
proof -
  from straddles_last[of w a b] assms(3) have "\<not> straddles w a b" by blast
  with assms(1) show ?thesis by (rule sublist_insert)
qed

lemma keep_replace_last:
  assumes "sublist w (a @ f @ b)" "w \<noteq> []" "f \<noteq> []"
    and "last w \<notin> set f" "last f \<notin> set (butlast w)"
  shows "sublist w (a @ r @ b)"
proof -
  from assms(1) have "sublist w ((a @ f) @ b)" by simp
  from sublist_app_cases[OF this]
  consider "sublist w (a @ f)" | "sublist w b" | "straddles w (a @ f) b" by blast
  then show ?thesis
  proof cases
    case 1
    from sublist_last_notin[OF 1 assms(2,4)] show ?thesis by (rule sublist_app_l)
  next
    case 2
    then have "sublist w (r @ b)" by (rule sublist_app_r)
    then show ?thesis by (rule sublist_app_r)
  next
    case 3
    from straddles_last[OF 3] assms(3,5) show ?thesis by simp
  qed
qed

lemma keep_replace_hd:
  assumes "sublist w (a @ f @ b)" "f \<noteq> []"
    and "hd f \<notin> set (tl w)" "last f \<notin> set (butlast w)" "\<not> sublist w f"
  shows "sublist w (a @ r @ b)"
proof -
  from sublist_app_cases[OF assms(1)]
  consider "sublist w a" | "sublist w (f @ b)" | "straddles w a (f @ b)" by blast
  then show ?thesis
  proof cases
    case 1
    then show ?thesis by (rule sublist_app_l)
  next
    case 2
    from sublist_app_cases[OF 2]
    consider "sublist w f" | "sublist w b" | "straddles w f b" by blast
    then show ?thesis
    proof cases
      case 1
      with assms(5) show ?thesis by blast
    next
      case 2
      then have "sublist w (r @ b)" by (rule sublist_app_r)
      then show ?thesis by (rule sublist_app_r)
    next
      case 3
      from straddles_last[OF 3] assms(4) show ?thesis by blast
    qed
  next
    case 3
    from straddles_hd[OF 3] assms(2,3) show ?thesis by simp
  qed
qed

text \<open>An invariant of the working text across one replacement is one across the message step.\<close>

lemma replaceMessage_invariant:
  assumes lp: "loop_pair f r" and P: "P (code st)"
    and step: "\<And>a b. P (a @ f @ b) \<Longrightarrow> P (a @ r @ b)"
    and run: "replaceMessage (f, r) st = Some st'"
  shows "P (code st')"
proof (cases "str_includes (code st) f")
  case True
  from replace_while_rule[OF lp, of P "code st"] P step
  obtain y where "replace_while f r (code st) = Some y" "P y" by blast
  with True run show ?thesis by (auto simp: replaceMessage_def)
next
  case False
  with run P show ?thesis by (auto simp: replaceMessage_def)
qed

lemma patch5_invariant:
  assumes P: "P (code st)"
    and step1: "\<And>a b. P (a @ find1 @ b) \<Longrightarrow> P (a @ snd (errorMsgReplacements ! 0) @ b)"
    and step2: "\<And>a b. P (a @ find2 @ b) \<Longrightarrow> P (a @ snd (errorMsgReplacements ! 1) @ b)"
    and run: "patch5 st = Some st'"
  shows "P (code st')"
proof -
  from run have "replaceMessages [(find1, snd (errorMsgReplacements ! 0)),
      (find2, snd (errorMsgReplacements ! 1))] st = Some st'"
    unfolding patch5_def using errorMsgReplacements_pairs by simp
  then obtain st1 where 1: "replaceMessage (find1, snd (errorMsgReplacements ! 0)) st = Some st1"
    and 2: "replaceMessage (find2, snd (errorMsgReplacements ! 1)) st1 = Some st'"
    by (auto split: Option.bind_splits)
  from replaceMessage_invariant[OF loop_pair_1 P step1 1] have "P (code st1)" .
  from replaceMessage_invariant[OF loop_pair_2 this step2 2] show ?thesis .
qed

section \<open>The anchors across the edits\<close>

lemma sublist_around_word:
  assumes "sublist l (x @ g @ y)" "l \<noteq> []" "last l \<notin> set g" "y \<noteq> []" "hd y \<notin> set (tl l)"
  shows "sublist l x \<or> sublist l y"
proof -
  from assms(1) have "sublist l ((x @ g) @ y)" by simp
  from sublist_app_cases[OF this]
  consider "sublist l (x @ g)" | "sublist l y" | "straddles l (x @ g) y" by blast
  then show ?thesis
  proof cases
    case 1
    from sublist_last_notin[OF 1 assms(2,3)] show ?thesis ..
  next
    case 2
    then show ?thesis ..
  next
    case 3
    from straddles_hd[OF 3] assms(5) show ?thesis by blast
  qed
qed

lemma word_no_space: "word_text g \<Longrightarrow> 32 \<notin> set g"
  using word_text_notin not_word_chars(2) by blast

lemma word_no_paren: "word_text g \<Longrightarrow> 41 \<notin> set g"
  using word_text_notin not_word_chars(3) by blast

text \<open>
  The two anchors that carry extracted names hold no occurrence of a text that ends with
  a space, unless their literal parts do.
\<close>

lemma in_backendByTypeAnchor:
  assumes "names_ok n" "sublist l (backendByTypeAnchor n)" "l \<noteq> []" "last l = 32" "40 \<notin> set (tl l)"
  shows \<open>sublist l (js ''case"tmux":return '') \<or> sublist l (js ''();case"iterm2":return '')
         \<or> sublist l (js ''()'')\<close>
proof -
  from assms(1) have w: "word_text (tmuxFactory n)" "word_text (iterm2Factory n)"
    by (simp_all add: names_ok_def)
  have l1: "last l \<notin> set (tmuxFactory n)" "last l \<notin> set (iterm2Factory n)"
    using w word_no_space assms(4) by auto
  have e: \<open>backendByTypeAnchor n = js ''case"tmux":return '' @ tmuxFactory n
      @ (js ''();case"iterm2":return '' @ iterm2Factory n @ js ''()'')\<close>
    by (simp add: backendByTypeAnchor_def)
  have h1: \<open>hd (js ''();case"iterm2":return '' @ iterm2Factory n @ js ''()'') \<notin> set (tl l)\<close>
    using assms(5) by (simp add: js_def)
  have h2: "hd (js ''()'') \<notin> set (tl l)" using assms(5) by (simp add: js_def)
  from sublist_around_word[OF assms(2)[unfolded e] assms(3) l1(1) _ h1]
  consider \<open>sublist l (js ''case"tmux":return '')\<close>
    | \<open>sublist l (js ''();case"iterm2":return '' @ iterm2Factory n @ js ''()'')\<close>
    by (auto simp: js_def)
  then show ?thesis
  proof cases
    case 1
    then show ?thesis by blast
  next
    case 2
    from sublist_around_word[OF 2 assms(3) l1(2) _ h2] show ?thesis by (auto simp: js_def)
  qed
qed

lemma in_inProcessAnchor:
  assumes "names_ok n" "sublist l (inProcessAnchor n)" "l \<noteq> []" "last l = 32" "40 \<notin> set (tl l)"
  shows "sublist l (js ''else q=!'') \<or> sublist l (js ''()'')"
proof -
  from assms(1) have w: "word_text (isInsideTmuxSyncFn n)" by (simp add: names_ok_def)
  have l1: "last l \<notin> set (isInsideTmuxSyncFn n)" using w word_no_space assms(4) by auto
  have h2: "hd (js ''()'') \<notin> set (tl l)" using assms(5) by (simp add: js_def)
  from sublist_around_word[OF assms(2)[unfolded inProcessAnchor_def] assms(3) l1 _ h2]
  show ?thesis by (auto simp: js_def)
qed

lemma anchors_last:
  "backendByTypeAnchor n \<noteq> []" "last (backendByTypeAnchor n) = 41"
  "inProcessAnchor n \<noteq> []" "last (inProcessAnchor n) = 41"
  by (simp_all add: backendByTypeAnchor_def inProcessAnchor_def js_def)

lemmas lit_eval_defs = js_def comparable_def errorAnchor_def cascadeAnchor_def

lemma sublist_eval: "sublist w s \<longleftrightarrow> first_index w s \<noteq> None"
  by (simp add: first_index_None_iff)

text \<open>The literals that mark the three insertion points, against the anchors with names.\<close>

lemma no_class_in_anchors:
  assumes "names_ok n"
  shows "\<not> sublist (js ''class '') (backendByTypeAnchor n)"
    and "\<not> sublist (js ''class '') (inProcessAnchor n)"
proof -
  have p: "js ''class '' \<noteq> []" "last (js ''class '') = 32" "40 \<notin> set (tl (js ''class ''))"
    by (simp_all add: js_def)
  show "\<not> sublist (js ''class '') (backendByTypeAnchor n)"
  proof
    assume "sublist (js ''class '') (backendByTypeAnchor n)"
    from in_backendByTypeAnchor[OF assms this p] show False
      by (simp add: sublist_eval js_def)
  qed
  show "\<not> sublist (js ''class '') (inProcessAnchor n)"
  proof
    assume "sublist (js ''class '') (inProcessAnchor n)"
    from in_inProcessAnchor[OF assms this p] show False
      by (simp add: sublist_eval js_def)
  qed
qed

lemma no_let_in_anchors:
  assumes "names_ok n"
  shows "\<not> sublist (js ''let K=await'') (backendByTypeAnchor n)"
    and "\<not> sublist (js ''let K=await'') (inProcessAnchor n)"
proof -
  have p: "js ''let '' \<noteq> []" "last (js ''let '') = 32" "40 \<notin> set (tl (js ''let ''))"
    by (simp_all add: js_def)
  have s: "sublist (js ''let '') (js ''let K=await'')" by (simp add: sublist_eval js_def)
  show "\<not> sublist (js ''let K=await'') (backendByTypeAnchor n)"
  proof
    assume "sublist (js ''let K=await'') (backendByTypeAnchor n)"
    with s have "sublist (js ''let '') (backendByTypeAnchor n)" by (rule sublist_trans)
    from in_backendByTypeAnchor[OF assms this p] show False
      by (simp add: sublist_eval js_def)
  qed
  show "\<not> sublist (js ''let K=await'') (inProcessAnchor n)"
  proof
    assume "sublist (js ''let K=await'') (inProcessAnchor n)"
    with s have "sublist (js ''let '') (inProcessAnchor n)" by (rule sublist_trans)
    from in_inProcessAnchor[OF assms this p] show False
      by (simp add: sublist_eval js_def)
  qed
qed

lemma no_throw_in_anchors:
  assumes "names_ok n"
  shows "\<not> sublist (js ''throw h'') (backendByTypeAnchor n)"
    and "\<not> sublist (js ''throw h'') (inProcessAnchor n)"
proof -
  have p: "js ''throw '' \<noteq> []" "last (js ''throw '') = 32" "40 \<notin> set (tl (js ''throw ''))"
    by (simp_all add: js_def)
  have s: "sublist (js ''throw '') (js ''throw h'')" by (simp add: sublist_eval js_def)
  show "\<not> sublist (js ''throw h'') (backendByTypeAnchor n)"
  proof
    assume "sublist (js ''throw h'') (backendByTypeAnchor n)"
    with s have "sublist (js ''throw '') (backendByTypeAnchor n)" by (rule sublist_trans)
    from in_backendByTypeAnchor[OF assms this p] show False
      by (simp add: sublist_eval js_def)
  qed
  show "\<not> sublist (js ''throw h'') (inProcessAnchor n)"
  proof
    assume "sublist (js ''throw h'') (inProcessAnchor n)"
    with s have "sublist (js ''throw '') (inProcessAnchor n)" by (rule sublist_trans)
    from in_inProcessAnchor[OF assms this p] show False
      by (simp add: sublist_eval js_def)
  qed
qed

text \<open>The literal anchors and markers, against the same three literals.\<close>

lemma fixed_no_overlap:
  "no_overlap (tl errorAnchor) (js ''class '')"
  "no_overlap (tl errorAnchor) (js ''let K=await'')"
  \<open>no_overlap (tl (js ''type="tmux"'')) (js ''class '')\<close>
  \<open>no_overlap (tl (js ''type="tmux"'')) (js ''let K=await'')\<close>
  \<open>no_overlap (tl (js ''type="tmux"'')) (js ''throw h'')\<close>
  "no_overlap (tl cascadeAnchor) (js ''class '')"
  by (simp_all add: lit_eval_defs)

section \<open>The cascade anchor across the injection\<close>

lemma not_created:
  assumes "sublist w (a @ ins @ b)" "ins \<noteq> []"
    and "hd ins \<notin> set w" "last ins \<notin> set w" "\<not> sublist w ins"
  shows "sublist w a \<or> sublist w b"
proof -
  have tl: "set (tl w) \<subseteq> set w" "set (butlast w) \<subseteq> set w"
    by (cases w; simp; blast) (auto dest: in_set_butlastD)
  from sublist_app_cases[OF assms(1)]
  consider "sublist w a" | "sublist w (ins @ b)" | "straddles w a (ins @ b)" by blast
  then show ?thesis
  proof cases
    case 1
    then show ?thesis ..
  next
    case 2
    from sublist_app_cases[OF 2]
    consider "sublist w ins" | "sublist w b" | "straddles w ins b" by blast
    then show ?thesis
    proof cases
      case 1
      with assms(5) show ?thesis by blast
    next
      case 2
      then show ?thesis ..
    next
      case 3
      from straddles_last[OF 3] assms(4) tl show ?thesis by blast
    qed
  next
    case 3
    from straddles_hd[OF 3] assms(2,3) tl show ?thesis by auto
  qed
qed

lemma injected_shape:
  assumes "names_ok n"
  shows "injected n \<noteq> []" "hd (injected n) = 102" "last (injected n) = 10" "96 \<notin> set (injected n)"
proof -
  from assms have w: "word_text (execFn n)" "word_text (logFn n)" by (simp_all add: names_ok_def)
  show "injected n \<noteq> []" by (simp add: injected_def)
  show "hd (injected n) = 102"
    by (simp add: injected_def ZELLIJ_DETECTION_CODE_def js_def)
  show "last (injected n) = 10" by (simp add: injected_def)
  have "96 \<notin> set (execFn n)" "96 \<notin> set (logFn n)"
    using w word_text_notin not_word_chars(5) by blast+
  then show "96 \<notin> set (injected n)"
    by (simp add: injected_def ZELLIJ_DETECTION_CODE_def ZELLIJ_BACKEND_CLASS_def js_def)
qed

lemma cascadeAnchor_chars:
  "102 \<notin> set cascadeAnchor" "10 \<notin> set cascadeAnchor" "96 \<in> set cascadeAnchor"
  "\<not> prefix (js ''class '') (cascadeAnchor @ v)"
  by (simp_all add: cascadeAnchor_def js_def)

lemma cascade_not_injected:
  assumes "names_ok n" "sublist cascadeAnchor (a @ injected n @ b)"
  shows "sublist cascadeAnchor a \<or> sublist cascadeAnchor b"
proof -
  note i = injected_shape[OF assms(1)]
  have "\<not> sublist cascadeAnchor (injected n)"
    using set_mono_sublist[of cascadeAnchor "injected n"] cascadeAnchor_chars(3) i(4) by blast
  with not_created[OF assms(2) i(1)] i(2,3) cascadeAnchor_chars(1,2) show ?thesis by simp
qed

text \<open>No text matched by the statement-start expression holds \<open>class\<close> followed by a space.\<close>

lemma no_class_in_letK:
  assumes "letK_text m"
  shows "\<not> sublist (js ''class '') m"
proof
  assume s: "sublist (js ''class '') m"
  from assms obtain sp w1 w2 where
    m: "m = js ''let K=await'' @ sp @ w1 @ js ''();if('' @ w2 @ js ''(`''"
    and sp: "space_text sp" and w: "word_text w1" "word_text w2"
    unfolding letK_text_def by blast
  have c: "js ''class '' \<noteq> []" "last (js ''class '') = 32" by (simp_all add: js_def)
  have "32 \<notin> set (w1 @ js ''();if('' @ w2 @ js ''(`'')"
    using word_no_space[OF w(1)] word_no_space[OF w(2)] by (simp add: js_def)
  with c have l: "last (js ''class '') \<notin> set (w1 @ js ''();if('' @ w2 @ js ''(`'')" by simp
  from s have "sublist (js ''class '') ((js ''let K=await'' @ sp) @ (w1 @ js ''();if('' @ w2 @ js ''(`''))"
    unfolding m by simp
  from sublist_last_notin[OF this c(1) l]
  have "sublist (js ''class '') (js ''let K=await'' @ sp)" .
  from sublist_app_cases[OF this]
  consider "sublist (js ''class '') (js ''let K=await'')" | "sublist (js ''class '') sp"
    | "straddles (js ''class '') (js ''let K=await'') sp" by blast
  then show False
  proof cases
    case 1
    then show False by (simp add: sublist_eval js_def)
  next
    case 2
    then have "set (js ''class '') \<subseteq> set sp" by (rule set_mono_sublist)
    then have "99 \<in> set sp" by (auto simp: js_def)
    with sp have "is_space 99" by (simp add: space_text_def)
    then show False by (simp add: is_space_def)
  next
    case 3
    from straddles_last[OF 3] show False by (simp add: js_def)
  qed
qed

lemma letK_text_last: "letK_text m \<Longrightarrow> last m = 96"
  by (auto simp: letK_text_def js_def)

lemma app_eq_le:
  assumes "a @ b = c @ d" "length a \<le> length c"
  shows "\<exists>us. c = a @ us \<and> b = us @ d"
proof -
  from assms have "a = take (length a) c" "b = drop (length a) c @ d"
    by (simp_all add: append_eq_append_conv_if)
  then have "c = a @ drop (length a) c" by (metis append_take_drop_id)
  with \<open>b = drop (length a) c @ d\<close> show ?thesis by blast
qed

lemma app_eq_ge:
  assumes "a @ b = c @ d" "length c \<le> length a"
  shows "\<exists>us. a = c @ us \<and> d = us @ b"
  using app_eq_le[OF assms(1)[symmetric] assms(2)] by blast

text \<open>
  PATCH 1 inserts its text before \<open>class\<close> followed by a space. The cascade anchor found
  before the insertion is found after it.
\<close>

lemma cascade_kept:
  assumes n: "names_ok n" and cf: "cascadeFound (a @ b)" and pb: "prefix (js ''class '') b"
  shows "cascadeFound (a @ injected n @ b)"
proof -
  from cascadeFound_decomp[OF cf] obtain u m v where
    e: "a @ b = u @ m @ cascadeAnchor @ v"
    and first: "\<not> sublist cascadeAnchor (u @ m @ butlast cascadeAnchor)"
    and len: "length m \<le> 200" and at: "letK_at m = Some m" and mt: "letK_text m" by blast
  from at have at': "letK_at m \<noteq> None" by simp
  from pb obtain r where br: "b = js ''class '' @ r" by (auto simp: prefix_def)
  consider "length a \<le> length u" | "length u < length a" "length a < length u + length m"
    | "length u + length m \<le> length a" "length a < length u + length m + length cascadeAnchor"
    | "length u + length m + length cascadeAnchor \<le> length a" by linarith
  then show ?thesis
  proof cases
    case 1
    from app_eq_le[OF e 1] obtain u2 where u: "u = a @ u2" and b: "b = u2 @ m @ cascadeAnchor @ v"
      by blast
    have ns: "\<not> sublist cascadeAnchor ((a @ injected n @ u2) @ m @ butlast cascadeAnchor)"
    proof
      assume "sublist cascadeAnchor ((a @ injected n @ u2) @ m @ butlast cascadeAnchor)"
      then have "sublist cascadeAnchor (a @ injected n @ (u2 @ m @ butlast cascadeAnchor))" by simp
      from cascade_not_injected[OF n this]
      have "sublist cascadeAnchor (a @ (u2 @ m @ butlast cascadeAnchor))"
        by (auto intro: sublist_app_l sublist_app_r)
      with first show False unfolding u by simp
    qed
    have eq: "a @ injected n @ b = (a @ injected n @ u2) @ m @ cascadeAnchor @ v"
      unfolding b by simp
    show ?thesis by (rule cascadeFound_intro[OF eq ns len at'])
  next
    case 2
    from 2(1) have "length u \<le> length a" by simp
    from app_eq_ge[OF e this] obtain m1 where a: "a = u @ m1"
      and mb: "m @ cascadeAnchor @ v = m1 @ b" by blast
    from 2 a have l1: "m1 \<noteq> []" "length m1 \<le> length m" by auto
    from app_eq_le[OF mb[symmetric] l1(2)] obtain m2 where m: "m = m1 @ m2"
      and b: "b = m2 @ cascadeAnchor @ v" by blast
    from 2(2) a m have m2: "m2 \<noteq> []" by auto
    from pb have "prefix (js ''class '') (m2 @ (cascadeAnchor @ v))" unfolding b .
    then consider "prefix (js ''class '') m2"
      | t where "js ''class '' = m2 @ t"
      by (auto simp: prefix_append)
    then show ?thesis
    proof cases
      case 1
      then have "sublist (js ''class '') m2" by simp
      then have "sublist (js ''class '') m" unfolding m by (rule sublist_app_r)
      with no_class_in_letK[OF mt] show ?thesis by blast
    next
      case 2
      have "last m2 = last m" using m2 unfolding m by simp
      then have "last m2 = 96" using letK_text_last[OF mt] by simp
      moreover have "last m2 \<in> set (m2 @ t)" using m2 by simp
      ultimately have "96 \<in> set (js ''class '')" unfolding 2 by simp
      then show ?thesis by (simp add: js_def)
    qed
  next
    case 3
    have e': "a @ b = (u @ m) @ cascadeAnchor @ v" using e by simp
    from 3(1) have "length (u @ m) \<le> length a" by simp
    from app_eq_ge[OF e' this] obtain c1 where a: "a = (u @ m) @ c1"
      and cb: "cascadeAnchor @ v = c1 @ b" by blast
    from 3(2) a have l1: "length c1 \<le> length cascadeAnchor" "length c1 < length cascadeAnchor"
      by auto
    from app_eq_le[OF cb[symmetric] l1(1)] obtain c2 where c: "cascadeAnchor = c1 @ c2"
      and b: "b = c2 @ v" by blast
    from l1(2) c have c2: "c2 \<noteq> []" by (metis append_Nil2 less_irrefl)
    show ?thesis
    proof (cases "c1 = []")
      case True
      with c b have "b = cascadeAnchor @ v" by simp
      with pb cascadeAnchor_chars(4) show ?thesis by blast
    next
      case False
      have "suffix c1 a" unfolding a by (simp add: suffix_def)
      moreover have "prefix c2 b" unfolding b by simp
      ultimately have "straddles cascadeAnchor a b"
        unfolding straddles_def using c False c2 by blast
      with straddles_clear[OF fixed_no_overlap(6)] br show ?thesis by blast
    qed
  next
    case 4
    have e': "a @ b = (u @ m @ cascadeAnchor) @ v" using e by simp
    from 4 have "length (u @ m @ cascadeAnchor) \<le> length a" by simp
    from app_eq_ge[OF e' this] obtain us where a: "a = (u @ m @ cascadeAnchor) @ us"
      and v: "v = us @ b" by blast
    have eq: "a @ injected n @ b = u @ m @ cascadeAnchor @ (us @ injected n @ b)"
      unfolding a by simp
    show ?thesis by (rule cascadeFound_intro[OF eq first len at'])
  qed
qed

section \<open>A full run\<close>

lemma butlast_inProcessAnchor:
  assumes "names_ok n"
  shows "41 \<notin> set (butlast (inProcessAnchor n))" "58 \<notin> set (butlast (inProcessAnchor n))"
    "46 \<notin> set (butlast (inProcessAnchor n))"
proof -
  from assms have w: "word_text (isInsideTmuxSyncFn n)" by (simp add: names_ok_def)
  have b: "butlast (inProcessAnchor n) = js ''else q=!'' @ isInsideTmuxSyncFn n @ js ''(''"
    by (simp add: inProcessAnchor_def js_def butlast_append)
  have nw: "\<not> is_word 41" "\<not> is_word 58" "\<not> is_word 46" by (simp_all add: is_word_def)
  from word_text_notin[OF w] nw
  have "41 \<notin> set (isInsideTmuxSyncFn n)" "58 \<notin> set (isInsideTmuxSyncFn n)"
    "46 \<notin> set (isInsideTmuxSyncFn n)" by blast+
  then show "41 \<notin> set (butlast (inProcessAnchor n))" "58 \<notin> set (butlast (inProcessAnchor n))"
    "46 \<notin> set (butlast (inProcessAnchor n))" unfolding b by (simp_all add: js_def)
qed

lemma marker_chars:
  \<open>js ''type="tmux"'' \<noteq> []\<close> \<open>last (js ''type="tmux"'') = 34\<close>
  \<open>41 \<notin> set (butlast (js ''type="tmux"''))\<close>
  \<open>58 \<notin> set (butlast (js ''type="tmux"''))\<close>
  \<open>46 \<notin> set (butlast (js ''type="tmux"''))\<close>
  "41 \<notin> set (butlast (js ''BackendRegistry''))"
  "58 \<notin> set (butlast (js ''BackendRegistry''))"
  "46 \<notin> set (butlast (js ''BackendRegistry''))"
  "84 \<notin> set (tl (js ''BackendRegistry''))"
  "sublist (js ''BackendRegistry'') errorAnchor"
  "41 \<notin> set (js ''class '')" "41 \<notin> set (js ''let K=await'')" "41 \<notin> set (js ''throw h'')"
  "prefix (js ''throw h'') (errorAnchor @ b)"
  "sublist (js ''isInsideZellijSync'') (js ''&&!isInsideZellijSync()'')"
  by (simp_all add: js_def errorAnchor_def sublist_eval)

lemma message_chars:
  "find1 \<noteq> []" "hd find1 = 84" "last find1 = 58" "34 \<notin> set find1" "41 \<notin> set find1"
  "\<not> sublist (js ''BackendRegistry'') find1"
  "find2 \<noteq> []" "hd find2 = 84" "last find2 = 46" "34 \<notin> set find2" "41 \<notin> set find2"
  "\<not> sublist (js ''BackendRegistry'') find2"
  by (simp_all add: errorMsgReplacements_def js_def sublist_eval)

text \<open>The markers and the last anchor across one replacement of either message.\<close>

lemma messages_keep:
  assumes "names_ok n"
  shows "sublist (inProcessAnchor n) (a @ find1 @ b)
           \<Longrightarrow> sublist (inProcessAnchor n) (a @ snd (errorMsgReplacements ! 0) @ b)"
    and "sublist (inProcessAnchor n) (a @ find2 @ b)
           \<Longrightarrow> sublist (inProcessAnchor n) (a @ snd (errorMsgReplacements ! 1) @ b)"
    and \<open>sublist (js ''type="tmux"'') (a @ find1 @ b)
           \<Longrightarrow> sublist (js ''type="tmux"'') (a @ snd (errorMsgReplacements ! 0) @ b)\<close>
    and \<open>sublist (js ''type="tmux"'') (a @ find2 @ b)
           \<Longrightarrow> sublist (js ''type="tmux"'') (a @ snd (errorMsgReplacements ! 1) @ b)\<close>
    and "sublist (js ''BackendRegistry'') (a @ find1 @ b)
           \<Longrightarrow> sublist (js ''BackendRegistry'') (a @ snd (errorMsgReplacements ! 0) @ b)"
    and "sublist (js ''BackendRegistry'') (a @ find2 @ b)
           \<Longrightarrow> sublist (js ''BackendRegistry'') (a @ snd (errorMsgReplacements ! 1) @ b)"
proof -
  note m = message_chars and k = marker_chars and i = butlast_inProcessAnchor[OF assms]
    and l = anchors_last
  show "sublist (inProcessAnchor n) (a @ find1 @ b)
           \<Longrightarrow> sublist (inProcessAnchor n) (a @ snd (errorMsgReplacements ! 0) @ b)"
    by (rule keep_replace_last[OF _ l(3) m(1)]) (simp_all add: l(4) m(3,5) i(2))
  show "sublist (inProcessAnchor n) (a @ find2 @ b)
           \<Longrightarrow> sublist (inProcessAnchor n) (a @ snd (errorMsgReplacements ! 1) @ b)"
    by (rule keep_replace_last[OF _ l(3) m(7)]) (simp_all del: One_nat_def add: l(4) m(9,11) i(3))
  show \<open>sublist (js ''type="tmux"'') (a @ find1 @ b)
           \<Longrightarrow> sublist (js ''type="tmux"'') (a @ snd (errorMsgReplacements ! 0) @ b)\<close>
    by (rule keep_replace_last[OF _ k(1) m(1)]) (simp_all add: k(2,4) m(3,4))
  show \<open>sublist (js ''type="tmux"'') (a @ find2 @ b)
           \<Longrightarrow> sublist (js ''type="tmux"'') (a @ snd (errorMsgReplacements ! 1) @ b)\<close>
    by (rule keep_replace_last[OF _ k(1) m(7)]) (simp_all del: One_nat_def add: k(2,5) m(9,10))
  show "sublist (js ''BackendRegistry'') (a @ find1 @ b)
           \<Longrightarrow> sublist (js ''BackendRegistry'') (a @ snd (errorMsgReplacements ! 0) @ b)"
    by (rule keep_replace_hd[OF _ m(1)]) (simp_all add: m(2,3,6) k(7,9))
  show "sublist (js ''BackendRegistry'') (a @ find2 @ b)
           \<Longrightarrow> sublist (js ''BackendRegistry'') (a @ snd (errorMsgReplacements ! 1) @ b)"
    by (rule keep_replace_hd[OF _ m(7)]) (simp_all del: One_nat_def add: m(8,9,12) k(8,9))
qed

lemma patch1_found:
  "str_includes (code st) (tmuxBackendAnchor n) \<Longrightarrow> failed (patch1 n st) = failed st"
  by (subst patch1_shape) (simp add: entry_def)

lemma patch2_found: "cascadeFound (code st) \<Longrightarrow> failed (patch2 n st) = failed st"
  by (subst patch2_shape) (simp add: entry_def)

lemma patch3_found: "str_includes (code st) errorAnchor \<Longrightarrow> failed (patch3 n st) = failed st"
  by (subst patch3_shape) (simp add: entry_def)

lemma patch4_found:
  "str_includes (code st) (backendByTypeAnchor n) \<Longrightarrow> failed (patch4 n st) = failed st"
  by (subst patch4_shape) (simp add: entry_def)

lemma patch6_found:
  "str_includes (code st) (inProcessAnchor n) \<Longrightarrow> failed (patch6 n st) = failed st"
  by (subst patch6_shape) (simp add: entry_def)

text \<open>
  When the input holds every anchor, each of the five structural edits finds its anchor in
  the text the earlier edits have produced, and the final text carries both markers of the
  recognition guard and the name \<open>isInsideZellijSync\<close>.
\<close>

lemma full_run:
  assumes g: "looksLikeCli s" and x: "extractMinifiedNames s = Some n"
    and a1: "str_includes s (tmuxBackendAnchor n)" and a2: "cascadeFound s"
    and a3: "str_includes s errorAnchor" and a4: "str_includes s (backendByTypeAnchor n)"
    and a6: "str_includes s (inProcessAnchor n)"
  shows "\<exists>st. run_edits n s = Some st \<and> failed st = [] \<and> looksLikeCli (code st)
           \<and> str_includes (code st) (js ''isInsideZellijSync'')"
proof -
  note n = extract_names_ok[OF x]
  note k = marker_chars and l = anchors_last and f = fixed_no_overlap
    and bi = butlast_inProcessAnchor[OF n]
  define st0 where "st0 = initial s"
  define st1 where "st1 = patch1 n st0"
  define st2 where "st2 = patch2 n st1"
  define st3 where "st3 = patch3 n st2"
  define st4 where "st4 = patch4 n st3"
  obtain st5 where 5: "patch5 st4 = Some st5" using patch5_returns by blast
  define st6 where "st6 = patch6 n st5"
  have c0: "code st0 = s" "failed st0 = []" by (simp_all add: st0_def initial_def)
  from g have t0: \<open>sublist (js ''type="tmux"'') s\<close> and r0: "sublist (js ''BackendRegistry'') s"
    by (simp_all add: looksLikeCli_def str_includes_iff)
  from a3 a4 a6 have e0: "sublist errorAnchor s" and b0: "sublist (backendByTypeAnchor n) s"
    and i0: "sublist (inProcessAnchor n) s" by (simp_all add: str_includes_iff)

  \<comment> \<open>first edit: the injected classes go in front of \<open>class X{type="tmux"\<close>\<close>
  from patch1_decomp[of st0 n] a1 c0 obtain p1 q1 where
    d1: "s = p1 @ tmuxBackendAnchor n @ q1"
        "code st1 = p1 @ injected n @ tmuxBackendAnchor n @ q1"
    by (auto simp: st1_def)
  have pc: "prefix (js ''class '') (tmuxBackendAnchor n @ q1)"
    by (simp add: tmuxBackendAnchor_def)
  have t1: \<open>sublist (js ''type="tmux"'') (code st1)\<close>
    unfolding d1(2) using t0 d1(1) by (intro keep_before_fixed[OF _ pc f(3)]) simp
  have e1: "sublist errorAnchor (code st1)"
    unfolding d1(2) using e0 d1(1) by (intro keep_before_fixed[OF _ pc f(1)]) simp
  have b1: "sublist (backendByTypeAnchor n) (code st1)"
    unfolding d1(2) using b0 d1(1)
    by (intro keep_before_last[OF _ pc l(1) _ no_class_in_anchors(1)[OF n]])
       (simp_all add: l(2) k(11))
  have i1: "sublist (inProcessAnchor n) (code st1)"
    unfolding d1(2) using i0 d1(1)
    by (intro keep_before_last[OF _ pc l(3) _ no_class_in_anchors(2)[OF n]])
       (simp_all add: l(4) k(11))
  have cf1: "cascadeFound (code st1)"
    unfolding d1(2) using a2 d1(1) by (intro cascade_kept[OF n _ pc]) simp
  have f1: "failed st1 = []"
    unfolding st1_def using a1 c0 by (simp add: patch1_found)

  \<comment> \<open>second edit: the check goes in front of \<open>let K=await\<close>\<close>
  from patch2_decomp[OF cf1, of n] obtain p2 q2 where
    d2: "code st1 = p2 @ q2" "code st2 = p2 @ zellijCheck n @ q2"
    and pl: "prefix (js ''let K=await'') q2"
    by (auto simp: st2_def)
  have t2: \<open>sublist (js ''type="tmux"'') (code st2)\<close>
    unfolding d2(2) using t1 d2(1) by (intro keep_before_fixed[OF _ pl f(4)]) simp
  have e2: "sublist errorAnchor (code st2)"
    unfolding d2(2) using e1 d2(1) by (intro keep_before_fixed[OF _ pl f(2)]) simp
  have b2: "sublist (backendByTypeAnchor n) (code st2)"
    unfolding d2(2) using b1 d2(1)
    by (intro keep_before_last[OF _ pl l(1) _ no_let_in_anchors(1)[OF n]])
       (simp_all add: l(2) k(12))
  have i2: "sublist (inProcessAnchor n) (code st2)"
    unfolding d2(2) using i1 d2(1)
    by (intro keep_before_last[OF _ pl l(3) _ no_let_in_anchors(2)[OF n]])
       (simp_all add: l(4) k(12))
  have f2: "failed st2 = []"
    unfolding st2_def using cf1 f1 by (simp add: patch2_found)

  \<comment> \<open>third edit: the fallback goes in front of the \<open>throw\<close>\<close>
  from e2 have a3': "str_includes (code st2) errorAnchor" by (simp add: str_includes_iff)
  from patch3_decomp[OF a3' n] obtain p3 q3 where
    d3: "code st2 = p3 @ errorAnchor @ q3"
        "code st3 = p3 @ zellijFallback n @ errorAnchor @ q3"
    by (auto simp: st3_def)
  note pt = k(14)[of q3]
  have t3: \<open>sublist (js ''type="tmux"'') (code st3)\<close>
    unfolding d3(2) using t2 d3(1) by (intro keep_before_fixed[OF _ pt f(5)]) simp
  have r3: "sublist (js ''BackendRegistry'') (code st3)"
    unfolding d3(2) using k(10) by (intro sublist_app_r sublist_app_l)
  have b3: "sublist (backendByTypeAnchor n) (code st3)"
    unfolding d3(2) using b2 d3(1)
    by (intro keep_before_last[OF _ pt l(1) _ no_throw_in_anchors(1)[OF n]])
       (simp_all add: l(2) k(13))
  have i3: "sublist (inProcessAnchor n) (code st3)"
    unfolding d3(2) using i2 d3(1)
    by (intro keep_before_last[OF _ pt l(3) _ no_throw_in_anchors(2)[OF n]])
       (simp_all add: l(4) k(13))
  have f3: "failed st3 = []"
    unfolding st3_def using a3' f2 by (simp add: patch3_found)

  \<comment> \<open>fourth edit: the new case goes behind the closing parenthesis of the anchor\<close>
  from b3 have a4': "str_includes (code st3) (backendByTypeAnchor n)"
    by (simp add: str_includes_iff)
  from patch4_decomp[OF a4' n] obtain p4 q4 where
    d4: "code st3 = p4 @ backendByTypeAnchor n @ q4"
        \<open>code st4 = p4 @ backendByTypeAnchor n @ js '';case"zellij":return createZellijBackend()'' @ q4\<close>
    by (auto simp: st4_def)
  have d4': "code st3 = (p4 @ backendByTypeAnchor n) @ q4"
    \<open>code st4 = (p4 @ backendByTypeAnchor n) @ js '';case"zellij":return createZellijBackend()'' @ q4\<close>
    using d4 by simp_all
  have l4: "p4 @ backendByTypeAnchor n \<noteq> []" "last (p4 @ backendByTypeAnchor n) = 41"
    using l(1,2) by simp_all
  have t4: \<open>sublist (js ''type="tmux"'') (code st4)\<close>
    unfolding d4'(2) using t3 d4'(1) by (intro keep_after[OF _ l4(1)]) (simp_all add: l4(2) k(3))
  have r4: "sublist (js ''BackendRegistry'') (code st4)"
    unfolding d4'(2) using r3 d4'(1) by (intro keep_after[OF _ l4(1)]) (simp_all add: l4(2) k(6))
  have i4: "sublist (inProcessAnchor n) (code st4)"
    unfolding d4'(2) using i3 d4'(1) by (intro keep_after[OF _ l4(1)]) (simp_all add: l4(2) bi(1))
  have f4: "failed st4 = []"
    unfolding st4_def using a4' f3 by (simp add: patch4_found)

  \<comment> \<open>the messages\<close>
  note mk = messages_keep[OF n]
  have t5: \<open>sublist (js ''type="tmux"'') (code st5)\<close>
    by (rule patch5_invariant[where P = \<open>sublist (js ''type="tmux"'')\<close>, OF t4 mk(3) mk(4) 5])
  have r5: "sublist (js ''BackendRegistry'') (code st5)"
    by (rule patch5_invariant[where P = "sublist (js ''BackendRegistry'')", OF r4 mk(5) mk(6) 5])
  have i5: "sublist (inProcessAnchor n) (code st5)"
    by (rule patch5_invariant[where P = "sublist (inProcessAnchor n)", OF i4 mk(1) mk(2) 5])
  have f5: "failed st5 = []" using patch5_failed[OF 5] f4 by simp

  \<comment> \<open>last edit: the call of \<open>isInsideZellijSync\<close> goes behind the anchor\<close>
  from i5 have a6': "str_includes (code st5) (inProcessAnchor n)" by (simp add: str_includes_iff)
  from patch6_decomp[OF a6' n] obtain p6 q6 where
    d6: "code st5 = p6 @ inProcessAnchor n @ q6"
        "code st6 = p6 @ inProcessAnchor n @ js ''&&!isInsideZellijSync()'' @ q6"
    by (auto simp: st6_def)
  have d6': "code st5 = (p6 @ inProcessAnchor n) @ q6"
    "code st6 = (p6 @ inProcessAnchor n) @ js ''&&!isInsideZellijSync()'' @ q6"
    using d6 by simp_all
  have l6: "p6 @ inProcessAnchor n \<noteq> []" "last (p6 @ inProcessAnchor n) = 41"
    using l(3,4) by simp_all
  have t6: \<open>sublist (js ''type="tmux"'') (code st6)\<close>
    unfolding d6'(2) using t5 d6'(1) by (intro keep_after[OF _ l6(1)]) (simp_all add: l6(2) k(3))
  have r6: "sublist (js ''BackendRegistry'') (code st6)"
    unfolding d6'(2) using r5 d6'(1) by (intro keep_after[OF _ l6(1)]) (simp_all add: l6(2) k(6))
  have z6: "sublist (js ''isInsideZellijSync'') (code st6)"
    unfolding d6(2) using k(15) by (intro sublist_app_r sublist_app_l)
  have f6: "failed st6 = []"
    unfolding st6_def using a6' f5 by (simp add: patch6_found)

  have run: "run_edits n s = Some st6"
    using 5 by (simp add: run_edits_def st6_def st4_def st3_def st2_def st1_def st0_def initial_def)
  from t6 r6 have "looksLikeCli (code st6)" by (simp add: looksLikeCli_def str_includes_iff)
  with run f6 z6 show ?thesis by (simp add: str_includes_iff)
qed


lemma sample_anchors:
  "str_includes sampleCli (tmuxBackendAnchor sampleNames)"
  "str_includes sampleCli errorAnchor"
  "str_includes sampleCli (backendByTypeAnchor sampleNames)"
  "str_includes sampleCli (inProcessAnchor sampleNames)"
  unfolding sampleCli_def anchor_eval by (simp_all only: eval_rules)

lemma sample_cascade: "cascadeFound sampleCli"
proof (rule cascadeFound_intro)
  show \<open>sampleCli =
      js ''class LTA{type="tmux"}h("[BackendRegistry] Starting backend detection...");if(x){h("[BackendRegistry] Selected: tmux (running inside tmux session)");let Y=EM6();return qW1=Y,ER={backend:Y,isNative:!0,needsIt2Setup:!1},ER}(await CA(T9,["-V"])).code===0;''
      @ js ''let K=await Ts();if(h(`'' @ cascadeAnchor
      @ js '',K){}throw h("[BackendRegistry] ERROR: No pane backend available");switch(t){case"tmux":return EM6();case"iterm2":return CI4()}`insideTmux=${Fq()}`;else q=!Fq();To use agent swarms, install tmux:''\<close>
    unfolding sampleCli_def cascadeAnchor_def by (simp only: eval_rules)
  have b: \<open>butlast cascadeAnchor = js ''[BackendRegistry] Not in tmux or iTerm2, tmux available: ${K}`''\<close>
    by (simp add: cascadeAnchor_def js_def)
  have ns: \<open>\<not> str_includes
      (js ''class LTA{type="tmux"}h("[BackendRegistry] Starting backend detection...");if(x){h("[BackendRegistry] Selected: tmux (running inside tmux session)");let Y=EM6();return qW1=Y,ER={backend:Y,isNative:!0,needsIt2Setup:!1},ER}(await CA(T9,["-V"])).code===0;''
       @ js ''let K=await Ts();if(h(`'' @ butlast cascadeAnchor) cascadeAnchor\<close>
    unfolding b unfolding cascadeAnchor_def by (simp only: eval_rules)
  show \<open>\<not> sublist cascadeAnchor
      (js ''class LTA{type="tmux"}h("[BackendRegistry] Starting backend detection...");if(x){h("[BackendRegistry] Selected: tmux (running inside tmux session)");let Y=EM6();return qW1=Y,ER={backend:Y,isNative:!0,needsIt2Setup:!1},ER}(await CA(T9,["-V"])).code===0;''
       @ js ''let K=await Ts();if(h(`'' @ butlast cascadeAnchor)\<close>
    unfolding str_includes_iff[symmetric] by (rule ns)
  show \<open>length (js ''let K=await Ts();if(h(`'') \<le> 200\<close> by (simp add: js_def)
  show \<open>letK_at (js ''let K=await Ts();if(h(`'') \<noteq> None\<close> by (simp only: eval_rules)
qed


section \<open>The message literals across the structural edits\<close>

lemma not_created_tl:
  assumes "sublist w (a @ ins @ b)" "ins \<noteq> []"
    and "hd ins \<notin> set (tl w)" "last ins \<notin> set (butlast w)" "\<not> sublist w ins"
  shows "sublist w a \<or> sublist w b"
proof -
  from sublist_app_cases[OF assms(1)]
  consider "sublist w a" | "sublist w (ins @ b)" | "straddles w a (ins @ b)" by blast
  then show ?thesis
  proof cases
    case 1
    then show ?thesis ..
  next
    case 2
    from sublist_app_cases[OF 2]
    consider "sublist w ins" | "sublist w b" | "straddles w ins b" by blast
    then show ?thesis
    proof cases
      case 1
      with assms(5) show ?thesis by blast
    next
      case 2
      then show ?thesis ..
    next
      case 3
      from straddles_last[OF 3] assms(4) show ?thesis by blast
    qed
  next
    case 3
    from straddles_hd[OF 3] assms(2,3) show ?thesis by auto
  qed
qed

lemma not_created_split:
  assumes "sublist w (a @ (i1 @ i2) @ b)" "w \<noteq> []" "last w \<notin> set i1"
    and "i2 \<noteq> []" "hd i2 \<notin> set (tl w)" "last i2 \<notin> set (butlast w)" "\<not> sublist w i2"
  shows "sublist w a \<or> sublist w b"
proof -
  from assms(1) have "sublist w ((a @ i1) @ i2 @ b)" by simp
  from not_created_tl[OF this assms(4-7)] show ?thesis
    using sublist_last_notin[OF _ assms(2,3)] by blast
qed

lemma split_char:
  assumes "sublist w (x @ c # y)" "c \<notin> set w"
  shows "sublist w x \<or> sublist w y"
proof (cases "w = []")
  case True
  then show ?thesis by simp
next
  case False
  from assms(1) have s: "sublist w (x @ [c] @ y)" by simp
  have 1: "hd [c] \<notin> set (tl w)" using assms(2) False list.set_sel(2)[of w c] by auto
  have 2: "last [c] \<notin> set (butlast w)" using assms(2) by (auto dest: in_set_butlastD)
  have 3: "\<not> sublist w [c]"
  proof
    assume "sublist w [c]"
    then have "set w \<subseteq> {c}" using set_mono_sublist by fastforce
    moreover from False have "hd w \<in> set w" by simp
    ultimately show False using assms(2) by auto
  qed
  from not_created_tl[OF s _ 1 2 3] show ?thesis by simp
qed

lemma not_created_between:
  assumes "sublist w (a @ (i1 @ c # m @ [d]) @ b)" "c \<notin> set w" "d \<notin> set w"
    and "w \<noteq> []" "last w \<notin> set i1" "\<not> sublist w m"
  shows "sublist w a \<or> sublist w b"
proof -
  from assms(1) have "sublist w ((a @ i1) @ c # (m @ d # b))" by simp
  from split_char[OF this assms(2)]
  consider "sublist w (a @ i1)" | "sublist w (m @ d # b)" by blast
  then show ?thesis
  proof cases
    case 1
    from sublist_last_notin[OF 1 assms(4,5)] show ?thesis ..
  next
    case 2
    from split_char[OF 2 assms(3)] assms(6) show ?thesis by blast
  qed
qed

lemma either_side: "sublist w a \<or> sublist w b \<Longrightarrow> sublist w (a @ x @ b)"
  by (auto intro: sublist_app_l sublist_app_r)

lemma message_text_cases: "message_text w \<longleftrightarrow> w = find1 \<or> w = find2"
  by (simp add: message_text_def errorMsgReplacements_def)

lemma filter_eval:
  "P c \<Longrightarrow> filter P (c # s) = c # filter P s"
  "\<not> P c \<Longrightarrow> filter P (c # s) = filter P s" "filter P [] = []"
  by simp_all

lemma message_skeleton:
  assumes "message_text w"
  shows "sublist [32, 32, 32, 44] (filter (\<lambda>c. \<not> is_word c) w)"
proof -
  have "sublist [32, 32, 32, 44] (filter (\<lambda>c. \<not> is_word c) find1)"
    "sublist [32, 32, 32, 44] (filter (\<lambda>c. \<not> is_word c) find2)"
    unfolding find_literals sublist_eval by (simp_all only: eval_rules filter_eval filter_append)
  with assms show ?thesis by (auto simp: message_text_cases)
qed

lemma no_message_in:
  assumes "message_text w" "\<not> sublist [32, 32, 32, 44] (filter (\<lambda>c. \<not> is_word c) t)"
  shows "\<not> sublist w t"
  using sublist_trans[OF message_skeleton[OF assms(1)] sublist_filter[of w t]] assms(2) by blast

text \<open>
  The characters of the inserted texts that are no word characters, in their order: the
  extracted names leave no trace in them.
\<close>

lemma injected_skeleton:
  assumes "names_ok n"
  shows "\<not> sublist [32, 32, 32, 44] (filter (\<lambda>c. \<not> is_word c) (injected n))"
proof -
  from assms have w: "filter (\<lambda>c. \<not> is_word c) (execFn n) = []"
    "filter (\<lambda>c. \<not> is_word c) (logFn n) = []"
    by (simp_all add: names_ok_def word_text_filter)
  have "filter (\<lambda>c. \<not> is_word c) (injected n)
      = filter (\<lambda>c. \<not> is_word c) (ZELLIJ_DETECTION_CODE [] @ [10] @ ZELLIJ_BACKEND_CLASS [] [] @ [10])"
    by (simp only: injected_def ZELLIJ_DETECTION_CODE_def ZELLIJ_BACKEND_CLASS_def join.simps
        filter_append append_Nil append_Nil2 w filter.simps(1))
  moreover have "\<not> sublist [32, 32, 32, 44]
      (filter (\<lambda>c. \<not> is_word c) (ZELLIJ_DETECTION_CODE [] @ [10] @ ZELLIJ_BACKEND_CLASS [] [] @ [10]))"
    unfolding ZELLIJ_DETECTION_CODE_def ZELLIJ_BACKEND_CLASS_def sublist_eval
    by (simp only: eval_rules filter_eval filter_append join.simps append_Nil2)
  ultimately show ?thesis by simp
qed

lemma zellijCheck_skeleton:
  assumes "names_ok n"
  shows "\<not> sublist [32, 32, 32, 44] (filter (\<lambda>c. \<not> is_word c) (zellijCheck n))"
proof -
  from assms have w: "filter (\<lambda>c. \<not> is_word c) (logFn n) = []"
    "filter (\<lambda>c. \<not> is_word c) (cachedBackendRef n) = []"
    "filter (\<lambda>c. \<not> is_word c) (cachedResultVar n) = []"
    by (simp_all add: names_ok_def word_text_filter)
  have "filter (\<lambda>c. \<not> is_word c) (zellijCheck n)
      = filter (\<lambda>c. \<not> is_word c)
          (zellijCheck \<lparr> tmuxBackendClass = [], tmuxFactory = [], iterm2Factory = [],
             cachedBackendRef = [], cachedResultVar = [], execFn = [], logFn = [],
             isInsideTmuxSyncFn = [] \<rparr>)"
    by (simp only: zellijCheck_def join.simps MinifiedNames.select_convs
        filter_append append_Nil append_Nil2 w filter.simps(1))
  moreover have "\<not> sublist [32, 32, 32, 44]
      (filter (\<lambda>c. \<not> is_word c)
          (zellijCheck \<lparr> tmuxBackendClass = [], tmuxFactory = [], iterm2Factory = [],
             cachedBackendRef = [], cachedResultVar = [], execFn = [], logFn = [],
             isInsideTmuxSyncFn = [] \<rparr>))"
    unfolding zellijCheck_def sublist_eval
    by (simp only: eval_rules filter_eval filter_append join.simps append_Nil2
        MinifiedNames.select_convs)
  ultimately show ?thesis by simp
qed

lemma zellijFallback_skeleton:
  assumes "names_ok n"
  shows "\<not> sublist [32, 32, 32, 44] (filter (\<lambda>c. \<not> is_word c) (zellijFallback n))"
proof -
  from assms have w: "filter (\<lambda>c. \<not> is_word c) (logFn n) = []"
    "filter (\<lambda>c. \<not> is_word c) (cachedBackendRef n) = []"
    "filter (\<lambda>c. \<not> is_word c) (cachedResultVar n) = []"
    by (simp_all add: names_ok_def word_text_filter)
  have "filter (\<lambda>c. \<not> is_word c) (zellijFallback n)
      = filter (\<lambda>c. \<not> is_word c)
          (zellijFallback \<lparr> tmuxBackendClass = [], tmuxFactory = [], iterm2Factory = [],
             cachedBackendRef = [], cachedResultVar = [], execFn = [], logFn = [],
             isInsideTmuxSyncFn = [] \<rparr>)"
    by (simp only: zellijFallback_def join.simps MinifiedNames.select_convs
        filter_append append_Nil append_Nil2 w filter.simps(1))
  moreover have "\<not> sublist [32, 32, 32, 44]
      (filter (\<lambda>c. \<not> is_word c)
          (zellijFallback \<lparr> tmuxBackendClass = [], tmuxFactory = [], iterm2Factory = [],
             cachedBackendRef = [], cachedResultVar = [], execFn = [], logFn = [],
             isInsideTmuxSyncFn = [] \<rparr>))"
    unfolding zellijFallback_def sublist_eval
    by (simp only: eval_rules filter_eval filter_append join.simps append_Nil2
        MinifiedNames.select_convs)
  ultimately show ?thesis by simp
qed

lemma find1_props:
  shows "find1 \<noteq> []"
    and "last find1 \<notin> set (js ''class '')" "\<not> sublist (js ''class '') find1"
    and "last find1 \<notin> set (js ''let K=await'')" "\<not> sublist (js ''let K=await'') find1"
    and "last find1 \<notin> set (js ''throw h'')" "\<not> sublist (js ''throw h'') find1"
    and "41 \<notin> set find1" "102 \<notin> set find1" "10 \<notin> set find1" "123 \<notin> set find1" "125 \<notin> set find1"
    and "59 \<notin> set find1" "last find1 \<noteq> 105" "44 \<in> set find1"
  by (simp_all add: errorMsgReplacements_def js_def sublist_eval)

lemma find2_props:
  shows "find2 \<noteq> []"
    and "last find2 \<notin> set (js ''class '')" "\<not> sublist (js ''class '') find2"
    and "last find2 \<notin> set (js ''let K=await'')" "\<not> sublist (js ''let K=await'') find2"
    and "last find2 \<notin> set (js ''throw h'')" "\<not> sublist (js ''throw h'') find2"
    and "41 \<notin> set find2" "102 \<notin> set find2" "10 \<notin> set find2" "123 \<notin> set find2" "125 \<notin> set find2"
    and "59 \<notin> set find2" "last find2 \<noteq> 105" "44 \<in> set find2"
  by (simp_all add: errorMsgReplacements_def js_def sublist_eval)

lemma message_props:
  assumes "message_text w"
  shows "w \<noteq> []"
    and "last w \<notin> set (js ''class '')" "\<not> sublist (js ''class '') w"
    and "last w \<notin> set (js ''let K=await'')" "\<not> sublist (js ''let K=await'') w"
    and "last w \<notin> set (js ''throw h'')" "\<not> sublist (js ''throw h'') w"
    and "41 \<notin> set w" "102 \<notin> set w" "10 \<notin> set w" "123 \<notin> set w" "125 \<notin> set w"
    and "59 \<notin> set w" "last w \<noteq> 105" "44 \<in> set w"
proof -
  from assms consider "w = find1" | "w = find2" unfolding message_text_cases by blast
  then have "w \<noteq> [] \<and> last w \<notin> set (js ''class '') \<and> \<not> sublist (js ''class '') w
    \<and> last w \<notin> set (js ''let K=await'') \<and> \<not> sublist (js ''let K=await'') w
    \<and> last w \<notin> set (js ''throw h'') \<and> \<not> sublist (js ''throw h'') w
    \<and> 41 \<notin> set w \<and> 102 \<notin> set w \<and> 10 \<notin> set w \<and> 123 \<notin> set w \<and> 125 \<notin> set w
    \<and> 59 \<notin> set w \<and> last w \<noteq> 105 \<and> 44 \<in> set w"
  proof cases
    case 1
    show ?thesis unfolding 1 by (intro conjI find1_props)
  next
    case 2
    show ?thesis unfolding 2 by (intro conjI find2_props)
  qed
  then show "w \<noteq> []" "last w \<notin> set (js ''class '')" "\<not> sublist (js ''class '') w" "last w \<notin> set (js ''let K=await'')" "\<not> sublist (js ''let K=await'') w" "last w \<notin> set (js ''throw h'')" "\<not> sublist (js ''throw h'') w" "41 \<notin> set w" "102 \<notin> set w" "10 \<notin> set w" "123 \<notin> set w" "125 \<notin> set w" "59 \<notin> set w" "last w \<noteq> 105" "44 \<in> set w"
    by blast+
qed

lemma notin_tl: "c \<notin> set w \<Longrightarrow> c \<notin> set (tl w)"
  by (cases w) simp_all

lemma notin_butlast: "c \<notin> set w \<Longrightarrow> c \<notin> set (butlast w)"
  by (auto dest: in_set_butlastD)

lemma inserted_shapes:
  "zellijCheck n = [105] @ tl (zellijCheck n)" "tl (zellijCheck n) \<noteq> []"
  "hd (tl (zellijCheck n)) = 102" "last (tl (zellijCheck n)) = 125"
  "zellijFallback n \<noteq> []" "hd (zellijFallback n) = 123" "last (zellijFallback n) = 125"
  \<open>js '';case"zellij":return createZellijBackend()'' \<noteq> []\<close>
  \<open>hd (js '';case"zellij":return createZellijBackend()'') = 59\<close>
  \<open>last (js '';case"zellij":return createZellijBackend()'') = 41\<close>
  \<open>44 \<notin> set (js '';case"zellij":return createZellijBackend()'')\<close>
  by (simp_all add: zellijCheck_def zellijFallback_def js_def)

text \<open>Each structural edit neither removes nor creates an occurrence of a message literal.\<close>

lemma patch1_message:
  assumes n: "names_ok n" and m: "message_text w"
  shows "sublist w (code (patch1 n st)) \<longleftrightarrow> sublist w (code st)"
proof (cases "str_includes (code st) (tmuxBackendAnchor n)")
  case False
  with patch1_outcome[of st n] show ?thesis by (simp add: edit_outcome_def)
next
  case True
  note p = message_props[OF m] and i = injected_shape[OF n]
  from patch1_decomp[OF True] obtain a b where
    d: "code st = a @ tmuxBackendAnchor n @ b"
       "code (patch1 n st) = a @ injected n @ tmuxBackendAnchor n @ b" by blast
  have pc: "prefix (js ''class '') (tmuxBackendAnchor n @ b)"
    by (simp add: tmuxBackendAnchor_def)
  show ?thesis unfolding d
  proof
    assume "sublist w (a @ injected n @ tmuxBackendAnchor n @ b)"
    from not_created_tl[OF this i(1)] i(2,3) p(9,10) notin_tl notin_butlast
      no_message_in[OF m injected_skeleton[OF n]]
    have "sublist w a \<or> sublist w (tmuxBackendAnchor n @ b)" by metis
    then show "sublist w (a @ tmuxBackendAnchor n @ b)"
      by (auto intro: sublist_app_l sublist_app_r)
  next
    assume "sublist w (a @ tmuxBackendAnchor n @ b)"
    from keep_before_last[OF this pc p(1,2,3)]
    show "sublist w (a @ injected n @ tmuxBackendAnchor n @ b)" .
  qed
qed

lemma patch2_message:
  assumes n: "names_ok n" and m: "message_text w"
  shows "sublist w (code (patch2 n st)) \<longleftrightarrow> sublist w (code st)"
proof (cases "cascadeFound (code st)")
  case False
  with patch2_outcome[of st n] show ?thesis by (simp add: edit_outcome_def)
next
  case True
  note p = message_props[OF m] and i = inserted_shapes(1-4)[of n]
  from patch2_decomp[OF True, of n] obtain a b where
    d: "code st = a @ b" "code (patch2 n st) = a @ zellijCheck n @ b"
    and pl: "prefix (js ''let K=await'') b" by blast
  have ns: "\<not> sublist w (tl (zellijCheck n))"
  proof
    assume "sublist w (tl (zellijCheck n))"
    then have "sublist w ([105] @ tl (zellijCheck n))" by (rule sublist_app_r)
    with i(1) no_message_in[OF m zellijCheck_skeleton[OF n]] show False by simp
  qed
  have l: "last w \<notin> set [105]" using p(14) by simp
  show ?thesis unfolding d
  proof
    assume "sublist w (a @ zellijCheck n @ b)"
    then have "sublist w (a @ ([105] @ tl (zellijCheck n)) @ b)" using i(1) by simp
    from not_created_split[OF this p(1) l i(2) _ _ ns] i(3,4) p(9,12) notin_tl notin_butlast
    have "sublist w a \<or> sublist w b" by metis
    then show "sublist w (a @ b)" by (auto intro: sublist_app_l sublist_app_r)
  next
    assume "sublist w (a @ b)"
    from keep_before_last[OF this pl p(1,4,5)] show "sublist w (a @ zellijCheck n @ b)" .
  qed
qed

lemma patch3_message:
  assumes n: "names_ok n" and m: "message_text w"
  shows "sublist w (code (patch3 n st)) \<longleftrightarrow> sublist w (code st)"
proof (cases "str_includes (code st) errorAnchor")
  case False
  with patch3_outcome[of st n] show ?thesis by (simp add: edit_outcome_def)
next
  case True
  note p = message_props[OF m] and i = inserted_shapes(5-7)[of n]
  from patch3_decomp[OF True n] obtain a b where
    d: "code st = a @ errorAnchor @ b"
       "code (patch3 n st) = a @ zellijFallback n @ errorAnchor @ b" by blast
  note pt = marker_chars(14)[of b]
  show ?thesis unfolding d
  proof
    assume "sublist w (a @ zellijFallback n @ errorAnchor @ b)"
    from not_created_tl[OF this i(1)] i(2,3) p(11,12) notin_tl notin_butlast
      no_message_in[OF m zellijFallback_skeleton[OF n]]
    have "sublist w a \<or> sublist w (errorAnchor @ b)" by metis
    then show "sublist w (a @ errorAnchor @ b)" by (auto intro: sublist_app_l sublist_app_r)
  next
    assume "sublist w (a @ errorAnchor @ b)"
    from keep_before_last[OF this pt p(1,6,7)]
    show "sublist w (a @ zellijFallback n @ errorAnchor @ b)" .
  qed
qed

lemma patch4_message:
  assumes n: "names_ok n" and m: "message_text w"
  shows "sublist w (code (patch4 n st)) \<longleftrightarrow> sublist w (code st)"
proof (cases "str_includes (code st) (backendByTypeAnchor n)")
  case False
  with patch4_outcome[of st n] show ?thesis by (simp add: edit_outcome_def)
next
  case True
  note p = message_props[OF m] and i = inserted_shapes(8-11) and l = anchors_last(1,2)[of n]
  from patch4_decomp[OF True n] obtain a b where
    d: "code st = (a @ backendByTypeAnchor n) @ b"
       \<open>code (patch4 n st)
          = (a @ backendByTypeAnchor n) @ js '';case"zellij":return createZellijBackend()'' @ b\<close>
    by auto
  have ns: \<open>\<not> sublist w (js '';case"zellij":return createZellijBackend()'')\<close>
    using set_mono_sublist[of w \<open>js '';case"zellij":return createZellijBackend()''\<close>] p(15) i(4)
    by blast
  have la: "a @ backendByTypeAnchor n \<noteq> []" "last (a @ backendByTypeAnchor n) \<notin> set (butlast w)"
    using l p(8) notin_butlast by simp_all
  show ?thesis unfolding d
  proof
    assume \<open>sublist w ((a @ backendByTypeAnchor n)
        @ js '';case"zellij":return createZellijBackend()'' @ b)\<close>
    from not_created_tl[OF this i(1) _ _ ns] i(2,3) p(8,13) notin_tl notin_butlast
    have "sublist w (a @ backendByTypeAnchor n) \<or> sublist w b" by metis
    then show "sublist w ((a @ backendByTypeAnchor n) @ b)"
      using sublist_app_l[of w "a @ backendByTypeAnchor n" b]
        sublist_app_r[of w b "a @ backendByTypeAnchor n"] by blast
  next
    assume "sublist w ((a @ backendByTypeAnchor n) @ b)"
    from keep_after[OF this la]
    show \<open>sublist w ((a @ backendByTypeAnchor n)
        @ js '';case"zellij":return createZellijBackend()'' @ b)\<close> .
  qed
qed

lemma second_literal_chars:
  "find1 \<noteq> []" "hd find1 \<notin> set (tl find2)" "last find1 \<notin> set (butlast find2)"
  "\<not> sublist find2 find1"
  "replace1 \<noteq> []" "hd replace1 \<notin> set (tl find2)" "last replace1 \<notin> set (butlast find2)"
  "\<not> sublist find2 replace1"
  by (simp_all add: errorMsgReplacements_def js_def sublist_eval)

text \<open>Replacing the first literal neither removes nor creates an occurrence of the second.\<close>

lemma second_literal_kept:
  "sublist find2 (a @ find1 @ b) \<longleftrightarrow> sublist find2 (a @ replace1 @ b)"
proof
  note c = second_literal_chars
  assume "sublist find2 (a @ find1 @ b)"
  from not_created_tl[OF this c(1-4)] show "sublist find2 (a @ replace1 @ b)" by (rule either_side)
next
  note c = second_literal_chars
  assume "sublist find2 (a @ replace1 @ b)"
  from not_created_tl[OF this c(5-8)] show "sublist find2 (a @ find1 @ b)" by (rule either_side)
qed

lemma replacement_shapes:
  "replace1 = js ''To use agent swarms'' @ 44
      # js '' install tmux or start a Zellij session (zellij)'' @ [58]"
  "replace2 = js ''To use agent swarms'' @ 44
      # (js '' install tmux or Zellij using your system'' @ [39] @ js ''s package manager'') @ [46]"
  "41 \<notin> set (js ''To use agent swarms'')"
  "61 \<notin> set (js '' install tmux or start a Zellij session (zellij)'')"
  "61 \<notin> set (js '' install tmux or Zellij using your system'' @ [39] @ js ''s package manager'')"
  by (simp_all add: errorMsgReplacements_def js_def)

lemma inProcessAnchor_chars:
  assumes "names_ok n"
  shows "44 \<notin> set (inProcessAnchor n)" "58 \<notin> set (inProcessAnchor n)"
    "46 \<notin> set (inProcessAnchor n)" "61 \<in> set (inProcessAnchor n)"
proof -
  from assms have w: "word_text (isInsideTmuxSyncFn n)" by (simp add: names_ok_def)
  have nw: "\<not> is_word 44" "\<not> is_word 58" "\<not> is_word 46" by (simp_all add: is_word_def)
  from word_text_notin[OF w] nw
  have "44 \<notin> set (isInsideTmuxSyncFn n)" "58 \<notin> set (isInsideTmuxSyncFn n)"
    "46 \<notin> set (isInsideTmuxSyncFn n)" by blast+
  then show "44 \<notin> set (inProcessAnchor n)" "58 \<notin> set (inProcessAnchor n)"
    "46 \<notin> set (inProcessAnchor n)" "61 \<in> set (inProcessAnchor n)"
    by (simp_all add: inProcessAnchor_def js_def)
qed

text \<open>No replacement of a message creates an occurrence of the last anchor.\<close>

lemma inProcessAnchor_not_created:
  assumes n: "names_ok n"
  shows "sublist (inProcessAnchor n) (a @ replace1 @ b) \<Longrightarrow> sublist (inProcessAnchor n) (a @ find1 @ b)"
    and "sublist (inProcessAnchor n) (a @ replace2 @ b) \<Longrightarrow> sublist (inProcessAnchor n) (a @ find2 @ b)"
proof -
  note c = inProcessAnchor_chars[OF n] and l = anchors_last(3,4)[of n] and r = replacement_shapes
  have la: "last (inProcessAnchor n) \<notin> set (js ''To use agent swarms'')" using l(2) r(3) by simp
  have m1: "\<not> sublist (inProcessAnchor n) (js '' install tmux or start a Zellij session (zellij)'')"
    using set_mono_sublist[of "inProcessAnchor n"] c(4) r(4) by blast
  have m2: "\<not> sublist (inProcessAnchor n)
      (js '' install tmux or Zellij using your system'' @ [39] @ js ''s package manager'')"
    using set_mono_sublist[of "inProcessAnchor n"] c(4) r(5) by blast
  show "sublist (inProcessAnchor n) (a @ find1 @ b)" if "sublist (inProcessAnchor n) (a @ replace1 @ b)"
  proof -
    from that have "sublist (inProcessAnchor n) (a @ (js ''To use agent swarms'' @ 44
      # js '' install tmux or start a Zellij session (zellij)'' @ [58]) @ b)"
      by (simp only: r(1))
    from not_created_between[OF this c(1,2) l(1) la m1] show ?thesis by (rule either_side)
  qed
  show "sublist (inProcessAnchor n) (a @ find2 @ b)" if "sublist (inProcessAnchor n) (a @ replace2 @ b)"
  proof -
    from that have "sublist (inProcessAnchor n) (a @ (js ''To use agent swarms'' @ 44
      # (js '' install tmux or Zellij using your system'' @ [39] @ js ''s package manager'') @ [46]) @ b)"
      by (simp only: r(2))
    from not_created_between[OF this c(1,3) l(1) la m2] show ?thesis by (rule either_side)
  qed
qed

lemma edit_outcome_warnings: "edit_outcome f d m st st' \<Longrightarrow> warnings' st' = warnings' st"
  by (simp add: edit_outcome_def split: if_splits)

lemma message_outcome_warnings:
  "message_outcome fr st st' \<Longrightarrow>
     warnings' st' = warnings' st @ entry (\<not> str_includes (code st) (fst fr)) (warningMessage (fst fr))"
  by (simp add: message_outcome_def entry_def split: if_splits)

lemma message_outcome_failed: "message_outcome fr st st' \<Longrightarrow> failed st' = failed st"
  by (simp add: message_outcome_def)

text \<open>The texts before and after the first message step hold the second literal alike.\<close>

lemma first_message_keeps_second:
  assumes "message_outcome (errorMsgReplacements ! 0) st st'"
  shows "sublist find2 (code st') \<longleftrightarrow> sublist find2 (code st)"
proof (cases "str_includes (code st) find1")
  case False
  with assms show ?thesis by (simp add: message_outcome_def)
next
  case True
  with assms have r: "replace_while find1 replace1 (code st) = Some (code st')"
    by (simp add: message_outcome_def)
  have "\<exists>y. replace_while find1 replace1 (code st) = Some y
          \<and> (sublist find2 y \<longleftrightarrow> sublist find2 (code st)) \<and> \<not> str_includes y find1"
    by (rule replace_while_rule[OF loop_pair_1]) (simp_all del: One_nat_def add: second_literal_kept)
  with r show ?thesis by auto
qed

lemma patch_failed:
  "failed (patch1 n st)
     = failed st @ entry (\<not> str_includes (code st) (tmuxBackendAnchor n)) patch1Failed"
  "failed (patch2 n st)
     = failed st @ entry (\<not> cascadeFound (code st))
         (if str_includes (code st) cascadeAnchor then patch2FailedStart else patch2FailedAnchor)"
  "failed (patch3 n st) = failed st @ entry (\<not> str_includes (code st) errorAnchor) patch3Failed"
  "failed (patch4 n st)
     = failed st @ entry (\<not> str_includes (code st) (backendByTypeAnchor n)) patch4Failed"
  "failed (patch6 n st)
     = failed st @ entry (\<not> str_includes (code st) (inProcessAnchor n)) patch6Failed"
  by (subst patch1_shape, simp) (subst patch2_shape, simp, subst patch3_shape, simp,
      subst patch4_shape, simp, subst patch6_shape, simp)

lemma label_heads:
  "hd patch1Failed = 80" "hd patch2FailedStart = 80" "hd patch2FailedAnchor = 80"
  "hd patch3Failed = 80" "hd patch4Failed = 80" "hd patch6Failed = 80"
  "hd (warningMessage f) = 69"
  by (simp_all add: patch1Failed_def patch2FailedStart_def patch2FailedAnchor_def patch3Failed_def
      patch4Failed_def patch6Failed_def warningMessage_def js_def)

lemma structural_failed_heads: "x \<in> set (failed (structural n s)) \<Longrightarrow> hd x = 80"
  unfolding structural_def patch_failed
  by (auto simp: initial_def entry_def label_heads split: if_splits)

text \<open>
  The report of a run that reaches the edits: one warning for each message literal absent
  from the input, and the failures of the structural edits alone.
\<close>

lemma message_run:
  assumes "looksLikeCli s" "\<not> isPatched s" "extractMinifiedNames s = Some n"
  shows "\<exists>r. patchCliSource s = Some r
     \<and> warnings r = (if str_includes s find1 then [] else [warningMessage find1])
                    @ (if str_includes s find2 then [] else [warningMessage find2])
     \<and> failedPatches r = failed (structural n s)
     \<and> success r = (failed (structural n s) = [])"
proof -
  note n = extract_names_ok[OF assms(3)]
  define st1 where "st1 = patch1 n (initial s)"
  define st2 where "st2 = patch2 n st1"
  define st3 where "st3 = patch3 n st2"
  define st4 where "st4 = patch4 n st3"
  from patch5_outcome[of st4] obtain st4' st5 where
    5: "patch5 st4 = Some st5" and m1: "message_outcome (errorMsgReplacements ! 0) st4 st4'"
    and m2: "message_outcome (errorMsgReplacements ! 1) st4' st5" by blast
  define st6 where "st6 = patch6 n st5"
  have "run_edits n s = Some st6"
    using 5 by (simp add: run_edits_def st6_def st4_def st3_def st2_def st1_def initial_def)
  then have p: "patchCliSource s = Some (report st6)"
    using assms by (simp add: patchCliSource_def patchCliSourceWith_def)

  \<comment> \<open>the literals in the text that the message step receives\<close>
  have lit: "sublist w (code st4) \<longleftrightarrow> sublist w s" if "message_text w" for w
    unfolding st4_def st3_def st2_def st1_def
    by (simp add: patch1_message[OF n that] patch2_message[OF n that] patch3_message[OF n that]
        patch4_message[OF n that] initial_def)
  have mt: "message_text find1" "message_text find2" by (simp_all add: message_text_cases)
  have i1: "str_includes (code st4) find1 \<longleftrightarrow> str_includes s find1"
    using lit[OF mt(1)] by (simp only: str_includes_iff)
  have i2: "str_includes (code st4') find2 \<longleftrightarrow> str_includes s find2"
    using lit[OF mt(2)] first_message_keeps_second[OF m1] by (simp only: str_includes_iff)

  \<comment> \<open>the warnings\<close>
  have w4: "warnings' st4 = []"
    unfolding st4_def st3_def st2_def st1_def
    by (simp add: edit_outcome_warnings[OF patch1_outcome] edit_outcome_warnings[OF patch2_outcome]
        edit_outcome_warnings[OF patch3_outcome] edit_outcome_warnings[OF patch4_outcome]
        initial_def)
  have w5: "warnings' st5 = entry (\<not> str_includes s find1) (warningMessage find1)
              @ entry (\<not> str_includes s find2) (warningMessage find2)"
    using message_outcome_warnings[OF m1] message_outcome_warnings[OF m2] w4 i1 i2 by simp
  have w6: "warnings' st6 = warnings' st5"
    unfolding st6_def by (rule edit_outcome_warnings[OF patch6_outcome])

  \<comment> \<open>the failures\<close>
  have f5: "failed st5 = failed st4"
    using message_outcome_failed[OF m1] message_outcome_failed[OF m2] by simp
  note mk = messages_keep[OF n] and nc = inProcessAnchor_not_created[OF n]
  have "sublist (inProcessAnchor n) (code st5) \<longleftrightarrow> sublist (inProcessAnchor n) (code st4)"
  proof (rule patch5_invariant[where P = "\<lambda>c. sublist (inProcessAnchor n) c
        \<longleftrightarrow> sublist (inProcessAnchor n) (code st4)", OF _ _ _ 5])
    show "sublist (inProcessAnchor n) (code st4) \<longleftrightarrow> sublist (inProcessAnchor n) (code st4)" ..
    show "sublist (inProcessAnchor n) (a @ replace1 @ b) = sublist (inProcessAnchor n) (code st4)"
      if "sublist (inProcessAnchor n) (a @ find1 @ b) = sublist (inProcessAnchor n) (code st4)"
      for a b using that mk(1)[of a b] nc(1)[of a b] by blast
    show "sublist (inProcessAnchor n) (a @ replace2 @ b) = sublist (inProcessAnchor n) (code st4)"
      if "sublist (inProcessAnchor n) (a @ find2 @ b) = sublist (inProcessAnchor n) (code st4)"
      for a b using that mk(2)[of a b] nc(2)[of a b] by blast
  qed
  then have i6: "str_includes (code st5) (inProcessAnchor n)
      \<longleftrightarrow> str_includes (code st4) (inProcessAnchor n)" by (simp only: str_includes_iff)
  have f6: "failed st6 = failed (structural n s)"
    unfolding st6_def structural_def patch_failed(5) f5 i6
    by (simp add: st4_def st3_def st2_def st1_def)

  have "warnings (report st6) = (if str_includes s find1 then [] else [warningMessage find1])
                    @ (if str_includes s find2 then [] else [warningMessage find2])"
    using w5 w6 by (simp add: report_def entry_def)
  moreover have "failedPatches (report st6) = failed (structural n s)"
    using f6 by (simp add: report_def)
  moreover have "success (report st6) = (failed (structural n s) = [])"
    using f6 by (simp add: report_def)
  ultimately show ?thesis using p by blast
qed

text \<open>
  C4 (as the code has it). The message replacements are two. For every text that passes
  both guards and the extraction, the report holds one warning for each of the two literals
  that is absent from the input, in the order of the list, and none for a literal that is
  present; no warning is among the failures; and the failures, hence \<open>success\<close>, are those
  of the five structural edits run without any message step.
\<close>

theorem message_warnings:
  assumes "looksLikeCli s" "\<not> isPatched s" "extractMinifiedNames s = Some n"
  shows "\<exists>r. patchCliSource s = Some r
     \<and> map fst errorMsgReplacements = [find1, find2]
     \<and> warnings r = (if str_includes s find1 then [] else [warningMessage find1])
                    @ (if str_includes s find2 then [] else [warningMessage find2])
     \<and> set (warnings r) \<inter> set (failedPatches r) = {}
     \<and> failedPatches r = failed (structural n s)
     \<and> success r = (failed (structural n s) = [])"
proof -
  from message_run[OF assms] obtain r where
    r: "patchCliSource s = Some r"
       "warnings r = (if str_includes s find1 then [] else [warningMessage find1])
                    @ (if str_includes s find2 then [] else [warningMessage find2])"
       "failedPatches r = failed (structural n s)"
       "success r = (failed (structural n s) = [])" by blast
  have "hd x = 69" if "x \<in> set (warnings r)" for x
    using that unfolding r(2) by (auto simp: label_heads split: if_splits)
  moreover have "hd x = 80" if "x \<in> set (failedPatches r)" for x
    using that unfolding r(3) by (rule structural_failed_heads)
  ultimately have d: "set (warnings r) \<inter> set (failedPatches r) = {}" by fastforce
  have m: "map fst errorMsgReplacements = [find1, find2]" by (simp add: errorMsgReplacements_def)
  show ?thesis by (rule exI[of _ r]) (intro conjI r m d)
qed

lemma sample_messages: "str_includes sampleCli find1" "\<not> str_includes sampleCli find2"
  unfolding sampleCli_def find_literals by (simp_all only: eval_rules)

theorem message_warnings_witness:
  "looksLikeCli sampleCli \<and> \<not> isPatched sampleCli
   \<and> extractMinifiedNames sampleCli = Some sampleNames
   \<and> str_includes sampleCli find1 \<and> \<not> str_includes sampleCli find2
   \<and> (\<exists>r. patchCliSource sampleCli = Some r \<and> warnings r = [warningMessage find2]
          \<and> failedPatches r = [] \<and> success r)"
proof -
  from message_warnings [OF sample_guards sample_names] obtain r where
    r: "patchCliSource sampleCli = Some r"
       "warnings r = (if str_includes sampleCli find1 then [] else [warningMessage find1])
                    @ (if str_includes sampleCli find2 then [] else [warningMessage find2])"
       "failedPatches r = failed (structural sampleNames sampleCli)"
       "success r = (failed (structural sampleNames sampleCli) = [])" by blast
  from full_run[OF sample_guards(1) sample_names sample_anchors(1) sample_cascade
      sample_anchors(2,3,4)]
  obtain st where st: "run_edits sampleNames sampleCli = Some st" "failed st = []" by blast
  from patchCliSource_edit_phase[OF sample_guards sample_names] st(1) r(1)
  have "r = report st" by simp
  with st(2) have "failedPatches r = []" by (simp add: report_def)
  with r have v: "warnings r = [warningMessage find2]" "failedPatches r = []" "success r"
    using sample_messages by simp_all
  have "\<exists>r. patchCliSource sampleCli = Some r \<and> warnings r = [warningMessage find2]
          \<and> failedPatches r = [] \<and> success r"
    by (rule exI[of _ r]) (intro conjI r(1) v)
  with sample_guards sample_names sample_messages show ?thesis by simp
qed

text \<open>
  A text that passes both guards and the extraction and holds none of the message literals
  gets two warnings, not five.
\<close>

theorem five_warnings_counterexample:
  "looksLikeCli failingCli \<and> \<not> isPatched failingCli
   \<and> extractMinifiedNames failingCli = Some sampleNames
   \<and> map fst errorMsgReplacements = [find1, find2]
   \<and> \<not> str_includes failingCli find1 \<and> \<not> str_includes failingCli find2
   \<and> (\<exists>r. patchCliSource failingCli = Some r
          \<and> warnings r = [warningMessage find1, warningMessage find2]
          \<and> length (warnings r) \<noteq> 5)"
proof -
  from message_run[OF failing_guards failing_names]
  obtain r where r: "patchCliSource failingCli = Some r"
    "warnings r = (if str_includes failingCli find1 then [] else [warningMessage find1])
                    @ (if str_includes failingCli find2 then [] else [warningMessage find2])"
    by blast
  from r(2) failing_anchors(6,7)
  have w: "warnings r = [warningMessage find1, warningMessage find2]" by simp
  then have l: "length (warnings r) \<noteq> 5" by simp
  have "\<exists>r. patchCliSource failingCli = Some r
          \<and> warnings r = [warningMessage find1, warningMessage find2]
          \<and> length (warnings r) \<noteq> 5"
    by (rule exI[of _ r]) (intro conjI r(1) w l)
  moreover have "map fst errorMsgReplacements = [find1, find2]"
    by (simp add: errorMsgReplacements_def)
  ultimately show ?thesis using failing_guards failing_names failing_anchors(6,7) by simp
qed

end
